theory Spec2Isabelle
  imports Main "HOL-Library.AList"
begin

chapter \<open>Model\<close>

section \<open>Data model\<close>

text \<open>
  The TypeScript interfaces of the node editor. Optional fields (\<open>f?: T\<close>) are \<open>option\<close>
  values, string-literal unions are datatypes, and a value of type \<open>unknown\<close> is a
  \<open>jsval\<close>. JavaScript numbers are modelled as integers: the functions below only store,
  copy and compare them. A \<open>Record<string, unknown>\<close> and a \<open>Map\<close> are association lists
  in insertion order, written with \<open>AList.update\<close> (replace in place, else append) and read
  with \<open>map_of\<close>. A lookup \<open>d[k]\<close> in a dictionary object is a lookup among its own
  entries, and the records are taken to have no keys that are array indices, which
  JavaScript would enumerate first. Fields that none of the modelled functions reads
  (colours, icons, categories, canvas and drag state) are left out of the records.
\<close>

datatype PortType =
    PT_image | PT_video | PT_text | PT_audio | PT_model3d | PT_any
  | PT_latent | PT_model | PT_clip | PT_vae | PT_conditioning | PT_mask
  | PT_control_net | PT_int | PT_float | PT_boolean | PT_combo

datatype PortDirection = Dir_input | Dir_output

datatype jsval = JNull | JBool bool | JNum int | JStr string

datatype WidgetType = W_text | W_number | W_slider | W_combo | W_toggle | W_textarea

record WidgetConfig =
  w_type :: WidgetType
  w_default :: "jsval option"
  w_min :: "int option"
  w_max :: "int option"
  w_step :: "int option"
  w_options :: "string list option"

record Port =
  p_id :: string
  p_name :: string
  p_type :: PortType
  p_direction :: PortDirection
  p_connected :: "bool option"
  p_isReferenceInput :: "bool option"
  p_widget :: "WidgetConfig option"

text \<open>\<open>Omit<Port, 'id' | 'direction'>\<close>, the port specification of a definition.\<close>

record PortSpec =
  ps_name :: string
  ps_type :: PortType
  ps_connected :: "bool option"
  ps_isReferenceInput :: "bool option"
  ps_widget :: "WidgetConfig option"

type_synonym jsrecord = "(string \<times> jsval) list"

record NodeDefinition =
  d_type :: string
  d_name :: string
  d_inputs :: "PortSpec list"
  d_outputs :: "PortSpec list"
  d_defaultData :: "jsrecord option"

record NodeInstance =
  n_id :: string
  n_type :: string
  n_position :: "int \<times> int"
  n_data :: jsrecord
  n_inputs :: "Port list"
  n_outputs :: "Port list"
  n_size :: "(int \<times> int) option"

record Connection =
  c_id :: string
  sourceNodeId :: string
  sourcePortId :: string
  targetNodeId :: string
  targetPortId :: string
  c_type :: "PortType option"

section \<open>Graph model: the workflow store\<close>

text \<open>
  The part of the store that the node and connection operations read and write. Each
  operation takes the store and returns the updated store.
\<close>

record WorkflowStore =
  nodes :: "NodeInstance list"
  connections :: "Connection list"
  selectedNodeIds :: "string list"

definition removeNode :: "string \<Rightarrow> WorkflowStore \<Rightarrow> WorkflowStore" where
  "removeNode nodeId state =
     state\<lparr> nodes := filter (\<lambda>n. n_id n \<noteq> nodeId) (nodes state),
            connections := filter (\<lambda>c. sourceNodeId c \<noteq> nodeId \<and> targetNodeId c \<noteq> nodeId)
                             (connections state),
            selectedNodeIds := filter (\<lambda>i. i \<noteq> nodeId) (selectedNodeIds state) \<rparr>"

text \<open>
  \<open>addConnection\<close> receives the connection without its id; the id comes from \<open>uuidv4()\<close>,
  here the argument \<open>uid\<close>. The \<open>c_id\<close> of the argument \<open>connection\<close> is not read.
\<close>

definition same_endpoints :: "Connection \<Rightarrow> Connection \<Rightarrow> bool" where
  "same_endpoints connection c \<longleftrightarrow>
     sourceNodeId c = sourceNodeId connection \<and> sourcePortId c = sourcePortId connection \<and>
     targetNodeId c = targetNodeId connection \<and> targetPortId c = targetPortId connection"

definition same_target :: "Connection \<Rightarrow> Connection \<Rightarrow> bool" where
  "same_target connection c \<longleftrightarrow>
     targetNodeId c = targetNodeId connection \<and> targetPortId c = targetPortId connection"

definition mark_connected :: "string \<Rightarrow> Port list \<Rightarrow> Port list" where
  "mark_connected portId ps =
     map (\<lambda>p. if p_id p = portId then p\<lparr>p_connected := Some True\<rparr> else p) ps"

definition addConnection :: "string \<Rightarrow> Connection \<Rightarrow> WorkflowStore \<Rightarrow> WorkflowStore" where
  "addConnection uid connection state =
     (if list_ex (same_endpoints connection) (connections state) then state
      else
        let targetHasConnection = list_ex (same_target connection) (connections state);
            newConnections =
              (if targetHasConnection
               then filter (\<lambda>c. \<not> same_target connection c) (connections state)
               else connections state);
            newConnection = connection\<lparr>c_id := uid\<rparr>;
            updatedNodes =
              map (\<lambda>node.
                     if n_id node = sourceNodeId connection
                     then node\<lparr>n_outputs := mark_connected (sourcePortId connection) (n_outputs node)\<rparr>
                     else if n_id node = targetNodeId connection
                     then node\<lparr>n_inputs := mark_connected (targetPortId connection) (n_inputs node)\<rparr>
                     else node)
                  (nodes state)
        in state\<lparr> connections := newConnections @ [newConnection], nodes := updatedNodes \<rparr>)"

text \<open>
  \<open>removeConnection\<close>, the sibling of \<open>addConnection\<close>: it clears the \<open>connected\<close> flag of
  the source output when no other connection leaves that output port, and the flag of the
  target input.
\<close>

definition unmark_connected :: "string \<Rightarrow> Port list \<Rightarrow> Port list" where
  "unmark_connected portId ps =
     map (\<lambda>p. if p_id p = portId then p\<lparr>p_connected := Some False\<rparr> else p) ps"

definition removeConnection :: "string \<Rightarrow> WorkflowStore \<Rightarrow> WorkflowStore" where
  "removeConnection connectionId state =
     (case find (\<lambda>c. c_id c = connectionId) (connections state) of
        None \<Rightarrow> state
      | Some connection \<Rightarrow>
          let updatedNodes =
                map (\<lambda>node.
                       if n_id node = sourceNodeId connection \<and>
                          \<not> list_ex (\<lambda>c. c_id c \<noteq> connectionId \<and> sourceNodeId c = n_id node \<and>
                                          sourcePortId c = sourcePortId connection)
                              (connections state)
                       then node\<lparr>n_outputs := unmark_connected (sourcePortId connection) (n_outputs node)\<rparr>
                       else if n_id node = targetNodeId connection
                       then node\<lparr>n_inputs := unmark_connected (targetPortId connection) (n_inputs node)\<rparr>
                       else node)
                    (nodes state)
          in state\<lparr> connections := filter (\<lambda>c. c_id c \<noteq> connectionId) (connections state),
                    nodes := updatedNodes \<rparr>)"

text \<open>
  Constructors for example inputs: a connection, a port and a node with the given fields.
\<close>

definition ex_conn :: "string \<Rightarrow> string \<Rightarrow> string \<Rightarrow> string \<Rightarrow> string \<Rightarrow> Connection" where
  "ex_conn i s sp t tp =
     \<lparr> c_id = i, sourceNodeId = s, sourcePortId = sp, targetNodeId = t, targetPortId = tp,
       c_type = None \<rparr>"

definition ex_port :: "string \<Rightarrow> PortDirection \<Rightarrow> bool \<Rightarrow> Port" where
  "ex_port i d b =
     \<lparr> p_id = i, p_name = ''p'', p_type = PT_any, p_direction = d, p_connected = Some b,
       p_isReferenceInput = None, p_widget = None \<rparr>"

definition ex_node :: "string \<Rightarrow> string \<Rightarrow> Port list \<Rightarrow> Port list \<Rightarrow> NodeInstance" where
  "ex_node i k ins outs =
     \<lparr> n_id = i, n_type = k, n_position = (0, 0), n_data = [], n_inputs = ins, n_outputs = outs,
       n_size = None \<rparr>"

text \<open>A store whose only connection leads to an id that is not a node.\<close>

definition dangling_store :: WorkflowStore where
  "dangling_store =
     \<lparr> nodes = [ex_node ''a'' ''text-input'' [] []],
       connections = [ex_conn ''c1'' ''a'' ''output-0'' ''x'' ''input-0''],
       selectedNodeIds = [] \<rparr>"

text \<open>A store with two sources and a target whose input is fed by the first source.\<close>

definition occupied_store :: WorkflowStore where
  "occupied_store =
     \<lparr> nodes = [ex_node ''s1'' ''text-input'' [] [ex_port ''output-0'' Dir_output True],
                ex_node ''s2'' ''text-input'' [] [ex_port ''output-0'' Dir_output False],
                ex_node ''t'' ''llm'' [ex_port ''input-0'' Dir_input True] []],
       connections = [ex_conn ''c1'' ''s1'' ''output-0'' ''t'' ''input-0''],
       selectedNodeIds = [] \<rparr>"

text \<open>A store, as \<open>loadWorkflow\<close> accepts it, with two connections into the same input.\<close>

definition doubly_occupied_store :: WorkflowStore where
  "doubly_occupied_store =
     \<lparr> nodes = [ex_node ''s1'' ''text-input'' [] [ex_port ''output-0'' Dir_output True],
                ex_node ''s2'' ''text-input'' [] [ex_port ''output-0'' Dir_output True],
                ex_node ''t'' ''llm'' [ex_port ''input-0'' Dir_input True] []],
       connections = [ex_conn ''c1'' ''s1'' ''output-0'' ''t'' ''input-0'',
                      ex_conn ''c2'' ''s2'' ''output-0'' ''t'' ''input-0''],
       selectedNodeIds = [] \<rparr>"

text \<open>A store with one node and no connection.\<close>

definition empty_store :: WorkflowStore where
  "empty_store =
     \<lparr> nodes = [ex_node ''a'' ''llm'' [ex_port ''input-0'' Dir_input False] [ex_port ''output-0'' Dir_output False]],
       connections = [], selectedNodeIds = [] \<rparr>"

section \<open>Execution order\<close>

text \<open>
  \<open>getExecutionOrder\<close> keeps two \<open>Map\<close>s keyed by node id: \<open>inDegree\<close> and
  \<open>adjacency\<close>. \<open>inDegree.get(k) || 0\<close> is \<open>degree_of\<close> and
  \<open>adjacency.get(k) || []\<close> is \<open>targets_of\<close>.
\<close>

definition degree_of :: "(string \<times> int) list \<Rightarrow> string \<Rightarrow> int" where
  "degree_of inDegree nodeId = (case map_of inDegree nodeId of None \<Rightarrow> 0 | Some d \<Rightarrow> d)"

definition targets_of :: "(string \<times> string list) list \<Rightarrow> string \<Rightarrow> string list" where
  "targets_of adjacency nodeId = (case map_of adjacency nodeId of None \<Rightarrow> [] | Some ts \<Rightarrow> ts)"

text \<open>The body of \<open>nodes.forEach\<close>: both maps get an entry for the node.\<close>

definition init_node ::
  "NodeInstance \<Rightarrow> (string \<times> int) list \<times> (string \<times> string list) list \<Rightarrow>
     (string \<times> int) list \<times> (string \<times> string list) list" where
  "init_node node = (\<lambda>(inDegree, adjacency).
     (AList.update (n_id node) 0 inDegree, AList.update (n_id node) [] adjacency))"

text \<open>
  The body of \<open>connections.forEach\<close>: the target is appended to the source's adjacency
  list and the target's in-degree is incremented. Neither endpoint has to be a node of the
  list: \<open>Map.set\<close> creates the entry.
\<close>

definition count_connection ::
  "Connection \<Rightarrow> (string \<times> int) list \<times> (string \<times> string list) list \<Rightarrow>
     (string \<times> int) list \<times> (string \<times> string list) list" where
  "count_connection conn = (\<lambda>(inDegree, adjacency).
     (let targets = targets_of adjacency (sourceNodeId conn) @ [targetNodeId conn];
          adjacency' = AList.update (sourceNodeId conn) targets adjacency;
          inDegree' = AList.update (targetNodeId conn)
                        (degree_of inDegree (targetNodeId conn) + 1) inDegree
      in (inDegree', adjacency')))"

text \<open>
  The body of \<open>targets.forEach\<close> inside the \<open>while\<close> loop: decrement the target's
  in-degree and enqueue it when the new degree is zero.
\<close>

definition visit_target ::
  "string \<Rightarrow> (string \<times> int) list \<times> string list \<Rightarrow> (string \<times> int) list \<times> string list" where
  "visit_target targetId = (\<lambda>(inDegree, queue).
     (let newDegree = degree_of inDegree targetId - 1;
          inDegree' = AList.update targetId newDegree inDegree
      in (inDegree', if newDegree = 0 then queue @ [targetId] else queue)))"

text \<open>
  The \<open>while (queue.length > 0)\<close> loop terminates: the queue length plus the number of
  entries with positive in-degree decreases with every iteration.
\<close>

definition pending :: "(string \<times> int) list \<Rightarrow> nat" where
  "pending inDegree = length (filter (\<lambda>(k, d). 0 < d) inDegree)"

lemma degree_of_Cons:
  "degree_of (p # ps) k = (if fst p = k then snd p else degree_of ps k)"
  by (cases p) (auto simp: degree_of_def)

lemma pending_update:
  "pending (AList.update k v m) + (if 0 < degree_of m k then 1 else 0) =
     pending m + (if 0 < v then 1 else 0)"
proof (induction m)
  case Nil
  show ?case by (simp add: pending_def degree_of_def)
next
  case (Cons p ps)
  have c: "pending (q # qs) = (if 0 < snd q then 1 else 0) + pending qs" for q qs
    by (cases q) (simp add: pending_def)
  show ?case
  proof (cases "fst p = k")
    case True
    then show ?thesis by (simp add: c degree_of_Cons)
  next
    case False
    with Cons.IH show ?thesis by (simp add: c degree_of_Cons)
  qed
qed

lemma visit_target_potential:
  "visit_target t (inDegree, queue) = (inDegree', queue') \<Longrightarrow>
     length queue' + pending inDegree' \<le> length queue + pending inDegree"
  using pending_update [of t "degree_of inDegree t - 1" inDegree]
  by (auto simp: visit_target_def Let_def split: if_splits)

lemma fold_visit_potential:
  "fold visit_target ts (inDegree, queue) = (inDegree', queue') \<Longrightarrow>
     length queue' + pending inDegree' \<le> length queue + pending inDegree"
proof (induction ts arbitrary: inDegree queue)
  case Nil
  then show ?case by simp
next
  case (Cons t ts)
  obtain d1 q1 where v: "visit_target t (inDegree, queue) = (d1, q1)"
    by (cases "visit_target t (inDegree, queue)")
  with Cons.prems have "fold visit_target ts (d1, q1) = (inDegree', queue')" by simp
  from Cons.IH [OF this] visit_target_potential [OF v] show ?case by linarith
qed

function kahn_loop ::
  "(string \<times> string list) list \<Rightarrow> (string \<times> int) list \<Rightarrow> string list \<Rightarrow> string list \<Rightarrow>
     string list" where
  "kahn_loop adjacency inDegree [] result = result"
| "kahn_loop adjacency inDegree (nodeId # queue) result =
     (case fold visit_target (targets_of adjacency nodeId) (inDegree, queue) of
        (inDegree', queue') \<Rightarrow> kahn_loop adjacency inDegree' queue' (result @ [nodeId]))"
  by pat_completeness auto

termination
  apply (relation "measure (\<lambda>(adjacency, inDegree, queue, result). length queue + pending inDegree)")
   apply simp
  apply (auto dest: fold_visit_potential [OF sym])
  done

definition getExecutionOrder :: "NodeInstance list \<Rightarrow> Connection list \<Rightarrow> string list" where
  "getExecutionOrder ns conns =
     (case fold count_connection conns (fold init_node ns ([], [])) of
        (inDegree, adjacency) \<Rightarrow>
          kahn_loop adjacency inDegree
            (map fst (filter (\<lambda>(nodeId, degree). degree = 0) inDegree)) [])"

text \<open>
  Notions used to state the properties of the order: the targets of the connections that
  leave a node, the number of connections into \<open>t\<close> whose source is outside \<open>R\<close>, and
  "\<open>s\<close> stands at a smaller index than \<open>t\<close>".
\<close>

definition out_targets :: "Connection list \<Rightarrow> string \<Rightarrow> string list" where
  "out_targets conns s = map targetNodeId (filter (\<lambda>c. sourceNodeId c = s) conns)"

definition remaining :: "Connection list \<Rightarrow> string set \<Rightarrow> string \<Rightarrow> nat" where
  "remaining conns R t = length (filter (\<lambda>c. targetNodeId c = t \<and> sourceNodeId c \<notin> R) conns)"

definition precedes :: "string list \<Rightarrow> string \<Rightarrow> string \<Rightarrow> bool" where
  "precedes L s t \<longleftrightarrow> (\<exists>i j. i < j \<and> j < length L \<and> L ! i = s \<and> L ! j = t)"

text \<open>
  The loop invariant: no id is queued or emitted twice; the stored in-degree of \<open>t\<close> is the
  number of its incoming connections whose source has not been emitted yet; the ids queued
  or emitted are exactly the known ids with no such connection left; and every source
  stands before its target.
\<close>

definition kahn_inv ::
  "Connection list \<Rightarrow> string set \<Rightarrow> (string \<times> int) list \<Rightarrow> string list \<Rightarrow> string list \<Rightarrow> bool" where
  "kahn_inv conns K deg queue result \<longleftrightarrow>
     distinct (result @ queue) \<and>
     (\<forall>t. degree_of deg t = int (remaining conns (set result) t)) \<and>
     (\<forall>t. t \<in> set (result @ queue) \<longleftrightarrow> t \<in> K \<and> remaining conns (set result) t = 0) \<and>
     (\<forall>c \<in> set conns. targetNodeId c \<in> set (result @ queue) \<longrightarrow>
        precedes (result @ queue) (sourceNodeId c) (targetNodeId c))"

text \<open>A node is on a cycle when the connections lead from it back to itself.\<close>

definition connection_edges :: "Connection list \<Rightarrow> (string \<times> string) set" where
  "connection_edges conns = set (map (\<lambda>c. (sourceNodeId c, targetNodeId c)) conns)"

definition on_cycle :: "Connection list \<Rightarrow> string \<Rightarrow> bool" where
  "on_cycle conns v \<longleftrightarrow> (v, v) \<in> (connection_edges conns)\<^sup>+"

text \<open>
  Example input: \<open>a \<rightarrow> b\<close> and the cycle \<open>c \<rightarrow> d \<rightarrow> c\<close>.
\<close>

definition cyclic_nodes :: "NodeInstance list" where
  "cyclic_nodes =
     [ex_node ''a'' ''text-input'' [] [], ex_node ''b'' ''llm'' [] [],
      ex_node ''c'' ''llm'' [] [], ex_node ''d'' ''llm'' [] []]"

definition cyclic_conns :: "Connection list" where
  "cyclic_conns =
     [ex_conn ''c1'' ''a'' ''output-0'' ''b'' ''input-0'',
      ex_conn ''c2'' ''c'' ''output-0'' ''d'' ''input-0'',
      ex_conn ''c3'' ''d'' ''output-0'' ''c'' ''input-0'']"

section \<open>Executor\<close>

text \<open>
  Strings. \<open>show_nat\<close> is the decimal form a template literal gives an array index,
  \<open>replace_first\<close> is \<open>String.prototype.replace\<close> with a string pattern, and
  \<open>parseInt\<close> (radix not given) skips leading white space, reads a sign and a \<open>0x\<close>
  prefix, and converts the longest prefix of digits; \<open>None\<close> is \<open>NaN\<close>.
\<close>

fun show_nat :: "nat \<Rightarrow> string" where
  "show_nat n =
     (if n < 10 then [char_of (48 + n)]
      else show_nat (n div 10) @ [char_of (48 + n mod 10)])"

declare show_nat.simps [simp del]

definition show_int :: "int \<Rightarrow> string" where
  "show_int i = (if i < 0 then CHR ''-'' # show_nat (nat (- i)) else show_nat (nat i))"

fun replace_first :: "string \<Rightarrow> string \<Rightarrow> string \<Rightarrow> string" where
  "replace_first pat rep [] = (if pat = [] then rep else [])"
| "replace_first pat rep (c # cs) =
     (if take (length pat) (c # cs) = pat then rep @ drop (length pat) (c # cs)
      else c # replace_first pat rep cs)"

definition is_js_space :: "char \<Rightarrow> bool" where
  "is_js_space c \<longleftrightarrow> of_char c \<in> {9, 10, 11, 12, 13, 32, 160 :: nat}"

definition digit_value :: "nat \<Rightarrow> char \<Rightarrow> nat option" where
  "digit_value radix c =
     (let k = of_char c :: nat;
          v = (if 48 \<le> k \<and> k \<le> 57 then Some (k - 48)
               else if 97 \<le> k \<and> k \<le> 122 then Some (k - 87)
               else if 65 \<le> k \<and> k \<le> 90 then Some (k - 55)
               else None)
      in case v of None \<Rightarrow> None | Some d \<Rightarrow> if d < radix then Some d else None)"

definition parseInt :: "string \<Rightarrow> int option" where
  "parseInt s =
     (let s1 = dropWhile is_js_space s;
          negative = (take 1 s1 = ''-'');
          s2 = (if take 1 s1 = ''-'' \<or> take 1 s1 = ''+'' then drop 1 s1 else s1);
          hex = (take 2 s2 = ''0x'' \<or> take 2 s2 = ''0X'');
          radix = (if hex then 16 else 10);
          s3 = (if hex then drop 2 s2 else s2);
          ds = takeWhile (\<lambda>c. digit_value radix c \<noteq> None) s3;
          magnitude = foldl (\<lambda>acc c. acc * radix + the (digit_value radix c)) 0 ds
      in if ds = [] then None
         else Some (if negative then - int magnitude else int magnitude))"

text \<open>
  A thrown value is an \<open>Error\<close> with its message or something else. The callbacks are
  modelled by the list of the calls made to them, in order.
\<close>

datatype thrown = JsError string | JsOther

datatype event =
    Progress string int string
  | NodeComplete string jsrecord
  | NodeError string string

record ExecutionContext =
  nodeOutputs :: "(string \<times> jsrecord) list"
  events :: "event list"

text \<open>
  The \<open>switch (node.type)\<close> of \<open>executeNode\<close> calls external services. It is the
  parameter \<open>cap\<close>: for a node and its resolved inputs it gives the progress calls made
  inside the switch and either the thrown value or the outputs.
\<close>

type_synonym capability =
  "NodeInstance \<Rightarrow> jsrecord \<Rightarrow> (int \<times> string) list \<times> (thrown + jsrecord)"

definition getNodeDefinition :: "NodeDefinition list \<Rightarrow> string \<Rightarrow> NodeDefinition option" where
  "getNodeDefinition registry t = find (\<lambda>d. d_type d = t) registry"

definition emit :: "event \<Rightarrow> ExecutionContext \<Rightarrow> ExecutionContext" where
  "emit e ctx = ctx\<lparr>events := events ctx @ [e]\<rparr>"

text \<open>
  The body of \<open>node.inputs.forEach\<close> in \<open>getNodeInputs\<close>: the value comes from the
  source node's outputs, at the position parsed from the source port id.
\<close>

definition resolve_input ::
  "NodeInstance \<Rightarrow> Connection list \<Rightarrow> ExecutionContext \<Rightarrow> nat \<times> Port \<Rightarrow> jsrecord \<Rightarrow> jsrecord" where
  "resolve_input node conns ctx = (\<lambda>(index, input) inputs.
     case find (\<lambda>c. targetNodeId c = n_id node \<and> targetPortId c = ''input-'' @ show_nat index) conns of
       None \<Rightarrow> inputs
     | Some connection \<Rightarrow>
         (case map_of (nodeOutputs ctx) (sourceNodeId connection) of
            None \<Rightarrow> inputs
          | Some sourceNode \<Rightarrow>
              (case parseInt (replace_first ''output-'' '''' (sourcePortId connection)) of
                 None \<Rightarrow> inputs
               | Some sourcePortIndex \<Rightarrow>
                   if 0 \<le> sourcePortIndex \<and> nat sourcePortIndex < length sourceNode
                   then AList.update (p_name input) (snd (sourceNode ! nat sourcePortIndex)) inputs
                   else inputs)))"

definition getNodeInputs :: "NodeInstance \<Rightarrow> Connection list \<Rightarrow> ExecutionContext \<Rightarrow> jsrecord" where
  "getNodeInputs node conns ctx =
     fold (resolve_input node conns ctx) (enumerate 0 (n_inputs node)) (n_data node)"

text \<open>
  The message literals of the source, as UTF-8 bytes.
\<close>

definition msg_unknown_type :: string where
  "msg_unknown_type =
     [CHR 0xE6, CHR 0x9C, CHR 0xAA, CHR 0xE7, CHR 0x9F, CHR 0xA5, CHR 0xE8, CHR 0x8A, CHR 0x82,
      CHR 0xE7, CHR 0x82, CHR 0xB9, CHR 0xE7, CHR 0xB1, CHR 0xBB, CHR 0xE5, CHR 0x9E, CHR 0x8B,
      CHR 0x3A, CHR 0x20]"

definition msg_preparing :: string where
  "msg_preparing =
     [CHR 0xE5, CHR 0x87, CHR 0x86, CHR 0xE5, CHR 0xA4, CHR 0x87, CHR 0xE6, CHR 0x89, CHR 0xA7,
      CHR 0xE8, CHR 0xA1, CHR 0x8C, CHR 0x2E, CHR 0x2E, CHR 0x2E]"

definition msg_done :: string where
  "msg_done = [CHR 0xE5, CHR 0xAE, CHR 0x8C, CHR 0xE6, CHR 0x88, CHR 0x90]"

definition msg_unknown_error :: string where
  "msg_unknown_error =
     [CHR 0xE6, CHR 0x9C, CHR 0xAA, CHR 0xE7, CHR 0x9F, CHR 0xA5, CHR 0xE9, CHR 0x94, CHR 0x99,
      CHR 0xE8, CHR 0xAF, CHR 0xAF]"

definition msg_run_failed :: string where
  "msg_run_failed =
     [CHR 0xE6, CHR 0x89, CHR 0xA7, CHR 0xE8, CHR 0xA1, CHR 0x8C, CHR 0xE5, CHR 0xA4, CHR 0xB1,
      CHR 0xE8, CHR 0xB4, CHR 0xA5]"

definition error_message :: "thrown \<Rightarrow> string \<Rightarrow> string" where
  "error_message error fallback = (case error of JsError m \<Rightarrow> m | JsOther \<Rightarrow> fallback)"

text \<open>
  \<open>executeNode\<close> throws before its \<open>try\<close> when the node type has no definition. Inside
  the \<open>try\<close>, a thrown value is reported to \<open>onNodeError\<close> and thrown again. The first
  component of the result is the thrown value or the returned outputs.
\<close>

definition executeNode ::
  "NodeDefinition list \<Rightarrow> capability \<Rightarrow> NodeInstance \<Rightarrow> Connection list \<Rightarrow> ExecutionContext \<Rightarrow>
     (thrown + jsrecord) \<times> ExecutionContext" where
  "executeNode registry cap node conns ctx =
     (case getNodeDefinition registry (n_type node) of
        None \<Rightarrow> (Inl (JsError (msg_unknown_type @ n_type node)), ctx)
      | Some definition \<Rightarrow>
          (let inputs = getNodeInputs node conns ctx;
               ctx1 = emit (Progress (n_id node) 10 msg_preparing) ctx
           in case cap node inputs of
                (progress, outcome) \<Rightarrow>
                  (let ctx2 = fold (\<lambda>(p, m). emit (Progress (n_id node) p m)) progress ctx1
                   in case outcome of
                        Inr outputs \<Rightarrow> (Inr outputs, emit (Progress (n_id node) 100 msg_done) ctx2)
                      | Inl error \<Rightarrow>
                          (Inl error,
                           emit (NodeError (n_id node) (error_message error msg_unknown_error)) ctx2))))"

text \<open>
  The \<open>for\<close> loop of \<open>executeWorkflow\<close> over the execution order, and
  \<open>executeWorkflow\<close> itself. The returned map is \<open>nodeOutputs\<close> of the final context.
\<close>

fun run_order ::
  "NodeDefinition list \<Rightarrow> capability \<Rightarrow> NodeInstance list \<Rightarrow> Connection list \<Rightarrow> string list \<Rightarrow>
     ExecutionContext \<Rightarrow> ExecutionContext" where
  "run_order registry cap ns conns [] ctx = ctx"
| "run_order registry cap ns conns (nodeId # executionOrder) ctx =
     (case find (\<lambda>n. n_id n = nodeId) ns of
        None \<Rightarrow> run_order registry cap ns conns executionOrder ctx
      | Some node \<Rightarrow>
          (case executeNode registry cap node conns ctx of
             (Inr outputs, ctx') \<Rightarrow>
               run_order registry cap ns conns executionOrder
                 (emit (NodeComplete nodeId outputs)
                    (ctx'\<lparr>nodeOutputs := AList.update nodeId outputs (nodeOutputs ctx')\<rparr>))
           | (Inl error, ctx') \<Rightarrow>
               run_order registry cap ns conns executionOrder
                 (emit (NodeError nodeId (error_message error msg_run_failed)) ctx')))"

definition executeWorkflow ::
  "NodeDefinition list \<Rightarrow> capability \<Rightarrow> NodeInstance list \<Rightarrow> Connection list \<Rightarrow> ExecutionContext" where
  "executeWorkflow registry cap ns conns =
     run_order registry cap ns conns (getExecutionOrder ns conns) \<lparr>nodeOutputs = [], events = []\<rparr>"

text \<open>
  Example inputs: a three-node chain \<open>text-input \<rightarrow> llm \<rightarrow> image-output\<close>, a registry with
  its node types, and a capability with the cases of the switch for these three types, in
  which the call of the LLM service throws \<open>Error("network down")\<close>. \<open>or_empty v\<close> is
  the value of \<open>v\<close> or, when that is missing or falsy, the empty string.
\<close>

definition ex_def :: "string \<Rightarrow> PortSpec list \<Rightarrow> PortSpec list \<Rightarrow> NodeDefinition" where
  "ex_def t ins outs =
     \<lparr> d_type = t, d_name = t, d_inputs = ins, d_outputs = outs, d_defaultData = None \<rparr>"

definition chain_nodes :: "NodeInstance list" where
  "chain_nodes =
     [ex_node ''a'' ''text-input'' [] [ex_port ''output-0'' Dir_output True],
      ex_node ''b'' ''llm'' [ex_port ''input-0'' Dir_input True] [ex_port ''output-0'' Dir_output True],
      ex_node ''c'' ''image-output'' [ex_port ''input-0'' Dir_input True] []]"

definition chain_conns :: "Connection list" where
  "chain_conns =
     [ex_conn ''c1'' ''a'' ''output-0'' ''b'' ''input-0'',
      ex_conn ''c2'' ''b'' ''output-0'' ''c'' ''input-0'']"

definition chain_registry :: "NodeDefinition list" where
  "chain_registry = [ex_def ''text-input'' [] [], ex_def ''llm'' [] [], ex_def ''image-output'' [] []]"

definition name_text :: string where
  "name_text = [CHR 0xE6, CHR 0x96, CHR 0x87, CHR 0xE6, CHR 0x9C, CHR 0xAC]"

definition name_image :: string where
  "name_image = [CHR 0xE5, CHR 0x9B, CHR 0xBE, CHR 0xE5, CHR 0x83, CHR 0x8F]"

definition msg_calling_llm :: string where
  "msg_calling_llm =
     [CHR 0xE8, CHR 0xB0, CHR 0x83, CHR 0xE7, CHR 0x94, CHR 0xA8, CHR 0x20, CHR 0x4C, CHR 0x4C,
      CHR 0x4D, CHR 0x2E, CHR 0x2E, CHR 0x2E]"

definition or_empty :: "jsval option \<Rightarrow> jsval" where
  "or_empty v =
     (case v of
        None \<Rightarrow> JStr []
      | Some x \<Rightarrow>
          if x = JNull \<or> x = JBool False \<or> x = JNum 0 \<or> x = JStr [] then JStr [] else x)"

definition chain_capability :: capability where
  "chain_capability node inputs =
     (if n_type node = ''text-input''
      then ([], Inr [(name_text, or_empty (map_of inputs ''text''))])
      else if n_type node = ''llm''
      then ([(30, msg_calling_llm)], Inl (JsError ''network down''))
      else if n_type node = ''image-output''
      then ([], Inr [(''result'', or_empty (map_of inputs name_image))])
      else ([], Inr inputs))"

definition error_events_for :: "string \<Rightarrow> event list \<Rightarrow> event list" where
  "error_events_for nodeId es =
     filter (\<lambda>e. case e of NodeError i m \<Rightarrow> i = nodeId | _ \<Rightarrow> False) es"

definition complete_events_for :: "string \<Rightarrow> event list \<Rightarrow> event list" where
  "complete_events_for nodeId es =
     filter (\<lambda>e. case e of NodeComplete i outputs \<Rightarrow> i = nodeId | _ \<Rightarrow> False) es"

text \<open>
  The node a callback is made for, the callbacks of a run that are made for one node id, and
  the progress and error callbacks of one call of \<open>executeNode\<close> for a node whose type is
  registered.
\<close>

definition event_node :: "event \<Rightarrow> string" where
  "event_node e = (case e of Progress i p m \<Rightarrow> i | NodeComplete i outputs \<Rightarrow> i | NodeError i m \<Rightarrow> i)"

definition events_for :: "string \<Rightarrow> event list \<Rightarrow> event list" where
  "events_for nodeId es = filter (\<lambda>e. event_node e = nodeId) es"

definition node_events :: "capability \<Rightarrow> NodeInstance \<Rightarrow> jsrecord \<Rightarrow> event list" where
  "node_events cap node inputs =
     Progress (n_id node) 10 msg_preparing #
     map (\<lambda>(p, m). Progress (n_id node) p m) (fst (cap node inputs)) @
     [case snd (cap node inputs) of
        Inr outputs \<Rightarrow> Progress (n_id node) 100 msg_done
      | Inl error \<Rightarrow> NodeError (n_id node) (error_message error msg_unknown_error)]"

section \<open>Validation\<close>

text \<open>
  The nested function \<open>hasCycle\<close> of \<open>validateWorkflow\<close>: a depth-first search with the
  sets \<open>visited\<close> and \<open>recursionStack\<close>, here the pair \<open>vs\<close>, threaded through the calls.
  \<open>hasCycle_loop\<close> is the \<open>for\<close> loop over the outgoing connections of \<open>nodeId\<close>; the
  recursive call \<open>hasCycle(conn.targetNodeId)\<close> is the inner call of the loop on the
  target's outgoing connections, with the target added to both sets. The result is the
  returned boolean and the two sets.
\<close>

function hasCycle_loop ::
  "Connection list \<Rightarrow> string \<Rightarrow> Connection list \<Rightarrow> string set \<times> string set \<Rightarrow>
     bool \<times> string set \<times> string set" where
  "hasCycle_loop conns nodeId [] vs = (False, fst vs, snd vs - {nodeId})"
| "hasCycle_loop conns nodeId (conn # outgoing) vs =
     (if targetNodeId conn \<notin> fst vs then
        (let r = hasCycle_loop conns (targetNodeId conn)
                   (filter (\<lambda>c. sourceNodeId c = targetNodeId conn) conns)
                   (insert (targetNodeId conn) (fst vs), insert (targetNodeId conn) (snd vs))
         in if fst r then (True, snd r) else hasCycle_loop conns nodeId outgoing (snd r))
      else if targetNodeId conn \<in> snd vs then (True, vs)
      else hasCycle_loop conns nodeId outgoing vs)"
  by pat_completeness auto

text \<open>
  The search terminates: a call never removes a node from \<open>visited\<close>, and every recursive
  call adds one that was not in it.
\<close>

lemma hasCycle_loop_visited_mono:
  "hasCycle_loop_dom (conns, nodeId, outgoing, vs) \<Longrightarrow>
     fst vs \<subseteq> fst (snd (hasCycle_loop conns nodeId outgoing vs))"
proof (induction conns nodeId outgoing vs rule: hasCycle_loop.pinduct)
  case (1 conns nodeId vs)
  then show ?case by (simp add: hasCycle_loop.psimps)
next
  case (2 conns nodeId conn outgoing vs)
  let ?t = "targetNodeId conn"
  let ?r = "hasCycle_loop conns ?t (filter (\<lambda>c. sourceNodeId c = ?t) conns)
              (insert ?t (fst vs), insert ?t (snd vs))"
  note eq = hasCycle_loop.psimps(2) [OF "2.hyps"]
  show ?case
  proof (cases "?t \<notin> fst vs")
    case True
    from "2.IH"(1) [OF True] have inner: "fst vs \<subseteq> fst (snd ?r)" by auto
    show ?thesis
    proof (cases "fst ?r")
      case True
      with \<open>?t \<notin> fst vs\<close> inner show ?thesis by (simp add: eq Let_def)
    next
      case False
      obtain a aa b where r: "(a, aa, b) = ?r" by (metis prod_cases3)
      from "2.IH"(2) [OF \<open>?t \<notin> fst vs\<close> r] False r
      have "fst (snd ?r) \<subseteq> fst (snd (hasCycle_loop conns nodeId outgoing (snd ?r)))"
        by (metis fst_conv)
      with \<open>?t \<notin> fst vs\<close> inner False show ?thesis by (auto simp: eq Let_def)
    qed
  next
    case False
    with "2.IH"(3) show ?thesis by (simp add: eq)
  qed
qed

definition unvisited :: "Connection list \<times> string \<times> Connection list \<times> string set \<times> string set \<Rightarrow> nat" where
  "unvisited = (\<lambda>(conns, nodeId, outgoing, vs).
     card ((targetNodeId ` set conns \<union> targetNodeId ` set outgoing) - fst vs))"

termination hasCycle_loop
proof (relation "unvisited <*mlex*> measure (\<lambda>(conns, nodeId, outgoing, vs). length outgoing)", goal_cases)
  case 1
  show ?case by (simp add: wf_mlex)
next
  case (2 conns nodeId conn outgoing vs)
  let ?t = "targetNodeId conn"
  let ?T = "targetNodeId ` set conns"
  have "(?T \<union> targetNodeId ` set (filter (\<lambda>c. sourceNodeId c = ?t) conns)) - insert ?t (fst vs)
          \<subset> (?T \<union> targetNodeId ` set (conn # outgoing)) - fst vs"
    using 2 by auto
  then have "card ((?T \<union> targetNodeId ` set (filter (\<lambda>c. sourceNodeId c = ?t) conns)) - insert ?t (fst vs))
          < card ((?T \<union> targetNodeId ` set (conn # outgoing)) - fst vs)"
    by (intro psubset_card_mono) auto
  then show ?case by (simp add: mlex_less unvisited_def)
next
  case (3 conns nodeId conn outgoing vs r)
  let ?t = "targetNodeId conn"
  let ?T = "targetNodeId ` set conns"
  from 3 hasCycle_loop_visited_mono [of conns ?t "filter (\<lambda>c. sourceNodeId c = ?t) conns"
      "(insert ?t (fst vs), insert ?t (snd vs))"]
  have "fst vs \<subseteq> fst (snd r)" by auto
  then have "card ((?T \<union> targetNodeId ` set outgoing) - fst (snd r))
          \<le> card ((?T \<union> targetNodeId ` set (conn # outgoing)) - fst vs)"
    by (intro card_mono) auto
  then show ?case by (simp add: mlex_leq unvisited_def)
next
  case (4 conns nodeId conn outgoing vs)
  let ?T = "targetNodeId ` set conns"
  have "card ((?T \<union> targetNodeId ` set outgoing) - fst vs)
          \<le> card ((?T \<union> targetNodeId ` set (conn # outgoing)) - fst vs)"
    by (intro card_mono) auto
  then show ?case by (simp add: mlex_leq unvisited_def)
qed

definition hasCycle ::
  "Connection list \<Rightarrow> string \<Rightarrow> string set \<times> string set \<Rightarrow> bool \<times> string set \<times> string set" where
  "hasCycle conns nodeId vs =
     hasCycle_loop conns nodeId (filter (\<lambda>c. sourceNodeId c = nodeId) conns)
       (insert nodeId (fst vs), insert nodeId (snd vs))"

text \<open>
  The messages of the validator, one constructor for each message template of the source:
  the workflow is empty; node of type \<open>t\<close> is not connected to other nodes; the workflow has
  a cyclic dependency; input \<open>i\<close> of the node with definition name \<open>n\<close> is not connected.
\<close>

datatype validation_message =
    Msg_empty
  | Msg_node_unconnected string
  | Msg_cycle
  | Msg_input_unconnected string string

record ValidationResult =
  valid :: bool
  errors :: "validation_message list"
  warnings :: "validation_message list"

text \<open>
  The loop \<open>for (const node of nodes)\<close> that starts a search at every node not visited yet
  and stops at the first cycle found.
\<close>

fun cycle_errors ::
  "Connection list \<Rightarrow> NodeInstance list \<Rightarrow> string set \<times> string set \<Rightarrow> validation_message list" where
  "cycle_errors conns [] vs = []"
| "cycle_errors conns (node # rest) vs =
     (if n_id node \<notin> fst vs then
        (let r = hasCycle conns (n_id node) vs
         in if fst r then [Msg_cycle] else cycle_errors conns rest (snd r))
      else cycle_errors conns rest vs)"

text \<open>
  The last loop of \<open>validateWorkflow\<close>, for one node: an input without a widget whose
  \<open>connected\<close> flag is not set and at which no connection ends gets a warning.
\<close>

definition input_warnings ::
  "NodeDefinition list \<Rightarrow> Connection list \<Rightarrow> NodeInstance \<Rightarrow> validation_message list" where
  "input_warnings registry conns node =
     (case getNodeDefinition registry (n_type node) of
        None \<Rightarrow> []
      | Some definition \<Rightarrow>
          map (\<lambda>input. Msg_input_unconnected (d_name definition) (p_name input))
            (filter (\<lambda>input. p_widget input = None \<and> p_connected input \<noteq> Some True \<and>
                       \<not> list_ex (\<lambda>c. targetNodeId c = n_id node \<and> targetPortId c = p_id input) conns)
               (n_inputs node)))"

definition validateWorkflow ::
  "NodeDefinition list \<Rightarrow> NodeInstance list \<Rightarrow> Connection list \<Rightarrow> ValidationResult" where
  "validateWorkflow registry ns conns =
     (if length ns = 0 then \<lparr> valid = True, errors = [], warnings = [Msg_empty] \<rparr>
      else
        let connectedNodeIds = set (map sourceNodeId conns) \<union> set (map targetNodeId conns);
            isolated = map (\<lambda>node. Msg_node_unconnected (n_type node))
                         (filter (\<lambda>node. n_id node \<notin> connectedNodeIds \<and> 1 < length ns) ns);
            errors = cycle_errors conns ns ({}, {});
            unconnected = concat (map (input_warnings registry conns) ns)
        in \<lparr> valid = (length errors = 0), errors = errors, warnings = isolated @ unconnected \<rparr>)"

definition is_node_unconnected :: "validation_message \<Rightarrow> bool" where
  "is_node_unconnected m = (case m of Msg_node_unconnected t \<Rightarrow> True | _ \<Rightarrow> False)"

section \<open>Format translator\<close>

text \<open>
  The external interchange format. Numbers are integers here; \<open>flags\<close>, \<open>order\<close>,
  \<open>mode\<close>, \<open>properties\<close> and \<open>groups\<close> are not read by the translator and are left out.
\<close>

record ComfyInput =
  ci_name :: string
  ci_type :: string
  ci_link :: "int option"

record ComfyOutput =
  co_name :: string
  co_type :: string
  co_links :: "int list option"
  co_slot_index :: "int option"

record ComfyUINode =
  cn_id :: int
  cn_type :: string
  cn_pos :: "int \<times> int"
  cn_size :: "int \<times> int"
  cn_inputs :: "ComfyInput list option"
  cn_outputs :: "ComfyOutput list option"
  cn_widgets_values :: "jsval list option"

type_synonym ComfyUILink = "int \<times> int \<times> int \<times> int \<times> int \<times> string"

record ComfyUIWorkflow =
  last_node_id :: int
  last_link_id :: int
  cw_nodes :: "ComfyUINode list"
  cw_links :: "ComfyUILink list"

text \<open>
  The two dictionaries, in the order of the source: \<open>comfyTypeMap\<close> from external to
  internal port types, \<open>comfyNodeTypeMap\<close> from external to internal node kinds.
\<close>

definition comfyTypeMap :: "(string \<times> PortType) list" where
  "comfyTypeMap =
     [(''MODEL'', PT_model), (''CLIP'', PT_clip), (''VAE'', PT_vae), (''LATENT'', PT_latent),
      (''IMAGE'', PT_image), (''MASK'', PT_mask), (''CONDITIONING'', PT_conditioning),
      (''CONTROL_NET'', PT_control_net), (''INT'', PT_int), (''FLOAT'', PT_float),
      (''STRING'', PT_text), (''BOOLEAN'', PT_boolean)]"

definition comfyNodeTypeMap :: "(string \<times> string) list" where
  "comfyNodeTypeMap =
     [(''CheckpointLoaderSimple'', ''checkpoint-loader''), (''KSampler'', ''ksampler''),
      (''CLIPTextEncode'', ''clip-text-encode''), (''VAEDecode'', ''vae-decode''),
      (''VAEEncode'', ''vae-encode''), (''EmptyLatentImage'', ''empty-latent''),
      (''SaveImage'', ''image-output''), (''LoadImage'', ''image-upload''),
      (''PreviewImage'', ''image-output'')]"

text \<open>
  \<open>toLowerCase\<close> and \<open>toUpperCase\<close> on ASCII letters, and \<open>findIndex\<close> with \<open>None\<close> for
  \<open>-1\<close>.
\<close>

definition toLowerCase :: "string \<Rightarrow> string" where
  "toLowerCase s =
     map (\<lambda>c. if 65 \<le> (of_char c :: nat) \<and> (of_char c :: nat) \<le> 90
              then char_of ((of_char c :: nat) + 32) else c) s"

definition toUpperCase :: "string \<Rightarrow> string" where
  "toUpperCase s =
     map (\<lambda>c. if 97 \<le> (of_char c :: nat) \<and> (of_char c :: nat) \<le> 122
              then char_of ((of_char c :: nat) - 32) else c) s"

fun find_index :: "('a \<Rightarrow> bool) \<Rightarrow> 'a list \<Rightarrow> nat option" where
  "find_index P [] = None"
| "find_index P (x # xs) =
     (if P x then Some 0 else map_option Suc (find_index P xs))"

text \<open>
  Import. An input or output port of the imported node comes from the external node's own
  port list; its id is made from its index.
\<close>

definition import_port_type :: "string \<Rightarrow> PortType" where
  "import_port_type t = (case map_of comfyTypeMap t of Some j \<Rightarrow> j | None \<Rightarrow> PT_any)"

definition import_input :: "nat \<times> ComfyInput \<Rightarrow> Port" where
  "import_input = (\<lambda>(index, input).
     \<lparr> p_id = ''input-'' @ show_nat index, p_name = ci_name input,
       p_type = import_port_type (ci_type input), p_direction = Dir_input,
       p_connected = Some (ci_link input \<noteq> None), p_isReferenceInput = None, p_widget = None \<rparr>)"

definition import_output :: "nat \<times> ComfyOutput \<Rightarrow> Port" where
  "import_output = (\<lambda>(index, output).
     \<lparr> p_id = ''output-'' @ show_nat index, p_name = co_name output,
       p_type = import_port_type (co_type output), p_direction = Dir_output,
       p_connected = Some (case co_links output of None \<Rightarrow> False | Some ls \<Rightarrow> 0 < length ls),
       p_isReferenceInput = None, p_widget = None \<rparr>)"

text \<open>
  The literal data of an imported node. With a definition, every input of the definition
  that has a widget takes the element of \<open>widgets_values\<close> at the input's own index, when
  there is one. Without a definition the values are named \<open>param_0\<close>, \<open>param_1\<close>, ...
\<close>

definition import_data :: "NodeDefinition option \<Rightarrow> jsval list option \<Rightarrow> jsrecord" where
  "import_data definition widgets_values =
     (case widgets_values of
        None \<Rightarrow> []
      | Some values \<Rightarrow>
          (case definition of
             Some d \<Rightarrow>
               fold (\<lambda>(index, input) data.
                       if ps_widget input \<noteq> None \<and> index < length values
                       then AList.update (ps_name input) (values ! index) data else data)
                 (enumerate 0 (d_inputs d)) []
           | None \<Rightarrow>
               fold (\<lambda>(index, v) data. AList.update (''param_'' @ show_nat index) v data)
                 (enumerate 0 values) []))"

definition import_node_type :: "string \<Rightarrow> string" where
  "import_node_type t =
     (case map_of comfyNodeTypeMap t of Some j \<Rightarrow> j | None \<Rightarrow> ''comfy-'' @ toLowerCase t)"

definition import_node :: "NodeDefinition list \<Rightarrow> string \<Rightarrow> ComfyUINode \<Rightarrow> NodeInstance" where
  "import_node registry nodeId comfyNode =
     (let nodeType = import_node_type (cn_type comfyNode);
          definition = getNodeDefinition registry nodeType;
          inputs = map import_input
                     (enumerate 0 (case cn_inputs comfyNode of None \<Rightarrow> [] | Some xs \<Rightarrow> xs));
          outputs = map import_output
                      (enumerate 0 (case cn_outputs comfyNode of None \<Rightarrow> [] | Some xs \<Rightarrow> xs));
          data = import_data definition (cn_widgets_values comfyNode)
      in \<lparr> n_id = nodeId, n_type = nodeType, n_position = cn_pos comfyNode, n_data = data,
           n_inputs = inputs, n_outputs = outputs, n_size = Some (cn_size comfyNode) \<rparr>)"

text \<open>
  The two loops of \<open>importComfyUIWorkflow\<close>. \<open>uuid k\<close> is the result of the \<open>k\<close>-th call
  of \<open>uuidv4()\<close>; the state carries the number of calls made. A link is kept when both
  of its nodes are in the id map.
\<close>

definition import_node_step ::
  "NodeDefinition list \<Rightarrow> (nat \<Rightarrow> string) \<Rightarrow> ComfyUINode \<Rightarrow>
     NodeInstance list \<times> (int \<times> string) list \<times> nat \<Rightarrow> NodeInstance list \<times> (int \<times> string) list \<times> nat" where
  "import_node_step registry uuid comfyNode = (\<lambda>(ns, nodeIdMap, k).
     (ns @ [import_node registry (uuid k) comfyNode],
      AList.update (cn_id comfyNode) (uuid k) nodeIdMap, Suc k))"

definition import_link_step ::
  "(nat \<Rightarrow> string) \<Rightarrow> (int \<times> string) list \<Rightarrow> ComfyUILink \<Rightarrow>
     Connection list \<times> nat \<Rightarrow> Connection list \<times> nat" where
  "import_link_step uuid nodeIdMap = (\<lambda>(linkId, sourceNodeId', sourceSlot, targetNodeId', targetSlot, t) (conns, k).
     case (map_of nodeIdMap sourceNodeId', map_of nodeIdMap targetNodeId') of
       (Some sourceId, Some targetId) \<Rightarrow>
         if sourceId \<noteq> [] \<and> targetId \<noteq> []
         then (conns @ [\<lparr> c_id = uuid k, sourceNodeId = sourceId,
                           sourcePortId = ''output-'' @ show_int sourceSlot,
                           targetNodeId = targetId,
                           targetPortId = ''input-'' @ show_int targetSlot,
                           c_type = Some (import_port_type t) \<rparr>], Suc k)
         else (conns, k)
     | _ \<Rightarrow> (conns, k))"

definition importComfyUIWorkflow ::
  "NodeDefinition list \<Rightarrow> (nat \<Rightarrow> string) \<Rightarrow> ComfyUIWorkflow \<Rightarrow> NodeInstance list \<times> Connection list" where
  "importComfyUIWorkflow registry uuid workflow =
     (case fold (import_node_step registry uuid) (cw_nodes workflow) ([], [], 0) of
        (ns, nodeIdMap, k) \<Rightarrow>
          (ns, fst (fold (import_link_step uuid nodeIdMap) (cw_links workflow) ([], k))))"

text \<open>
  Export. The reverse dictionaries are built entry by entry, a later entry replacing an
  earlier one with the same internal name.
\<close>

definition reverseTypeMap :: "(PortType \<times> string) list" where
  "reverseTypeMap = fold (\<lambda>(comfy, join). AList.update join comfy) comfyTypeMap []"

definition reverseNodeTypeMap :: "(string \<times> string) list" where
  "reverseNodeTypeMap = fold (\<lambda>(comfy, join). AList.update join comfy) comfyNodeTypeMap []"

definition export_port_type :: "PortType \<Rightarrow> string" where
  "export_port_type t = (case map_of reverseTypeMap t of Some c \<Rightarrow> c | None \<Rightarrow> ''STRING'')"

definition export_node_type :: "string \<Rightarrow> string" where
  "export_node_type t =
     (case map_of reverseNodeTypeMap t of
        Some c \<Rightarrow> c
      | None \<Rightarrow>
          if take 6 t = ''comfy-''
          then (let comfyType = filter (\<lambda>c. c \<noteq> CHR ''-'') (replace_first ''comfy-'' '''' t)
                in toUpperCase (take 1 comfyType) @ drop 1 comfyType)
          else t)"

definition export_node :: "int \<Rightarrow> NodeInstance \<Rightarrow> ComfyUINode" where
  "export_node comfyId node =
     \<lparr> cn_id = comfyId, cn_type = export_node_type (n_type node), cn_pos = n_position node,
       cn_size = (case n_size node of Some s \<Rightarrow> s | None \<Rightarrow> (200, 100)),
       cn_inputs = Some (map (\<lambda>input. \<lparr> ci_name = p_name input,
                                          ci_type = export_port_type (p_type input),
                                          ci_link = None \<rparr>) (n_inputs node)),
       cn_outputs = Some (map (\<lambda>(index, output). \<lparr> co_name = p_name output,
                                          co_type = export_port_type (p_type output),
                                          co_links = Some [], co_slot_index = Some (int index) \<rparr>)
                            (enumerate 0 (n_outputs node))),
       cn_widgets_values = Some (map snd (n_data node)) \<rparr>"

text \<open>
  The two loops of \<open>exportToComfyUIWorkflow\<close>: every node gets the next number, and every
  connection whose nodes and ports are found gives a link record and is written back to
  the exported nodes (\<open>outputs[slot].links\<close>, \<open>inputs[slot].link\<close>).
\<close>

definition export_node_step ::
  "NodeInstance \<Rightarrow> ComfyUINode list \<times> (string \<times> int) list \<times> int \<Rightarrow>
     ComfyUINode list \<times> (string \<times> int) list \<times> int" where
  "export_node_step node = (\<lambda>(comfyNodes, nodeIdMap, nodeIdCounter).
     (comfyNodes @ [export_node nodeIdCounter node],
      AList.update (n_id node) nodeIdCounter nodeIdMap, nodeIdCounter + 1))"

definition push_output_link :: "nat \<Rightarrow> int \<Rightarrow> ComfyUINode \<Rightarrow> ComfyUINode" where
  "push_output_link slot linkId n =
     (case cn_outputs n of
        Some outs \<Rightarrow>
          if slot < length outs
          then n\<lparr>cn_outputs := Some (outs[slot := (outs ! slot)
                 \<lparr>co_links := Some ((case co_links (outs ! slot) of None \<Rightarrow> [] | Some ls \<Rightarrow> ls) @ [linkId])\<rparr>])\<rparr>
          else n
      | None \<Rightarrow> n)"

definition set_input_link :: "nat \<Rightarrow> int \<Rightarrow> ComfyUINode \<Rightarrow> ComfyUINode" where
  "set_input_link slot linkId n =
     (case cn_inputs n of
        Some ins \<Rightarrow>
          if slot < length ins
          then n\<lparr>cn_inputs := Some (ins[slot := (ins ! slot)\<lparr>ci_link := Some linkId\<rparr>])\<rparr>
          else n
      | None \<Rightarrow> n)"

definition update_first :: "('a \<Rightarrow> bool) \<Rightarrow> ('a \<Rightarrow> 'a) \<Rightarrow> 'a list \<Rightarrow> 'a list" where
  "update_first P f xs = (case find_index P xs of None \<Rightarrow> xs | Some i \<Rightarrow> xs[i := f (xs ! i)])"

definition export_link_step ::
  "NodeInstance list \<Rightarrow> (string \<times> int) list \<Rightarrow> Connection \<Rightarrow>
     ComfyUINode list \<times> ComfyUILink list \<times> int \<Rightarrow> ComfyUINode list \<times> ComfyUILink list \<times> int" where
  "export_link_step ns nodeIdMap conn = (\<lambda>(comfyNodes, comfyLinks, linkIdCounter).
     case (map_of nodeIdMap (sourceNodeId conn), map_of nodeIdMap (targetNodeId conn)) of
       (Some sourceComfyId, Some targetComfyId) \<Rightarrow>
         (case (find (\<lambda>n. n_id n = sourceNodeId conn) ns, find (\<lambda>n. n_id n = targetNodeId conn) ns) of
            (Some sourceNode, Some targetNode) \<Rightarrow>
              (case (find_index (\<lambda>out. p_id out = sourcePortId conn) (n_outputs sourceNode),
                     find_index (\<lambda>i. p_id i = targetPortId conn) (n_inputs targetNode)) of
                 (Some sourceSlot, Some targetSlot) \<Rightarrow>
                   (let sourceOutput = n_outputs sourceNode ! sourceSlot;
                        linkId = linkIdCounter;
                        link = (linkId, sourceComfyId, int sourceSlot, targetComfyId, int targetSlot,
                                export_port_type (p_type sourceOutput));
                        comfyNodes1 = update_first (\<lambda>n. cn_id n = sourceComfyId)
                                        (push_output_link sourceSlot linkId) comfyNodes;
                        comfyNodes2 = update_first (\<lambda>n. cn_id n = targetComfyId)
                                        (set_input_link targetSlot linkId) comfyNodes1
                    in (comfyNodes2, comfyLinks @ [link], linkIdCounter + 1))
               | _ \<Rightarrow> (comfyNodes, comfyLinks, linkIdCounter))
          | _ \<Rightarrow> (comfyNodes, comfyLinks, linkIdCounter))
     | _ \<Rightarrow> (comfyNodes, comfyLinks, linkIdCounter))"

definition exportToComfyUIWorkflow :: "NodeInstance list \<Rightarrow> Connection list \<Rightarrow> ComfyUIWorkflow" where
  "exportToComfyUIWorkflow ns conns =
     (case fold export_node_step ns ([], [], 1) of
        (comfyNodes0, nodeIdMap, nodeIdCounter) \<Rightarrow>
          (case fold (export_link_step ns nodeIdMap) conns (comfyNodes0, [], 1) of
             (comfyNodes, comfyLinks, linkIdCounter) \<Rightarrow>
               \<lparr> last_node_id = nodeIdCounter - 1, last_link_id = linkIdCounter - 1,
                 cw_nodes = comfyNodes, cw_links = comfyLinks \<rparr>))"

definition ex_uuid :: "nat \<Rightarrow> string" where
  "ex_uuid k = ''uuid-'' @ show_nat k"

definition digits_value :: "string \<Rightarrow> nat" where
  "digits_value s = foldl (\<lambda>acc c. acc * 10 + (of_char c - 48)) 0 s"

text \<open>
  The position of a connection in a graph: the indices of its source and target node in the
  node list and of its ports in their port lists, when they are found.
\<close>

definition connection_position ::
  "NodeInstance list \<Rightarrow> Connection \<Rightarrow> (nat \<times> nat \<times> nat \<times> nat) option" where
  "connection_position ns c =
     (case (find_index (\<lambda>n. n_id n = sourceNodeId c) ns,
            find_index (\<lambda>n. n_id n = targetNodeId c) ns) of
        (Some i, Some j) \<Rightarrow>
          (case (find_index (\<lambda>p. p_id p = sourcePortId c) (n_outputs (ns ! i)),
                 find_index (\<lambda>p. p_id p = targetPortId c) (n_inputs (ns ! j))) of
             (Some k, Some l) \<Rightarrow> Some (i, k, j, l)
           | _ \<Rightarrow> None)
      | _ \<Rightarrow> None)"

definition link_ends :: "ComfyUILink \<Rightarrow> int \<times> int \<times> int \<times> int" where
  "link_ends = (\<lambda>(linkId, s, ss, t, ts, ty). (s, ss, t, ts))"

definition encode_position :: "nat \<times> nat \<times> nat \<times> nat \<Rightarrow> int \<times> int \<times> int \<times> int" where
  "encode_position = (\<lambda>(i, k, j, l). (1 + int i, int k, 1 + int j, int l))"

definition node_shape :: "ComfyUINode \<Rightarrow> int \<times> string \<times> nat \<times> nat" where
  "node_shape n =
     (cn_id n, cn_type n,
      length (case cn_inputs n of None \<Rightarrow> [] | Some xs \<Rightarrow> xs),
      length (case cn_outputs n of None \<Rightarrow> [] | Some xs \<Rightarrow> xs))"

definition export_ends ::
  "NodeInstance list \<Rightarrow> (string \<times> int) list \<Rightarrow> Connection \<Rightarrow> (int \<times> int \<times> int \<times> int) option" where
  "export_ends ns nodeIdMap conn =
     (case (map_of nodeIdMap (sourceNodeId conn), map_of nodeIdMap (targetNodeId conn)) of
        (Some s, Some t) \<Rightarrow>
          (case (find (\<lambda>n. n_id n = sourceNodeId conn) ns, find (\<lambda>n. n_id n = targetNodeId conn) ns) of
             (Some sourceNode, Some targetNode) \<Rightarrow>
               (case (find_index (\<lambda>p. p_id p = sourcePortId conn) (n_outputs sourceNode),
                      find_index (\<lambda>p. p_id p = targetPortId conn) (n_inputs targetNode)) of
                  (Some k, Some l) \<Rightarrow> Some (s, int k, t, int l)
                | _ \<Rightarrow> None)
           | _ \<Rightarrow> None)
      | _ \<Rightarrow> None)"

definition conn_ends :: "Connection \<Rightarrow> string \<times> string \<times> string \<times> string" where
  "conn_ends c = (sourceNodeId c, sourcePortId c, targetNodeId c, targetPortId c)"

text \<open>
  Example inputs: the built-in definitions of \<open>image-upload\<close> and \<open>image-output\<close>, a node
  of each kind, a connection between them, and an id supply.
\<close>

definition builtin_image_definitions :: "NodeDefinition list" where
  "builtin_image_definitions =
     [\<lparr> d_type = ''image-upload'',
        d_name = [CHR 0xE5, CHR 0x9B, CHR 0xBE, CHR 0xE5, CHR 0x83, CHR 0x8F,
                  CHR 0xE4, CHR 0xB8, CHR 0x8A, CHR 0xE4, CHR 0xBC, CHR 0xA0],
        d_inputs = [],
        d_outputs = [\<lparr> ps_name = name_image, ps_type = PT_image, ps_connected = None,
                       ps_isReferenceInput = None, ps_widget = None \<rparr>],
        d_defaultData = Some [(''imageUrl'', JStr ''''), (''fileName'', JStr '''')] \<rparr>,
      \<lparr> d_type = ''image-output'',
        d_name = [CHR 0xE5, CHR 0x9B, CHR 0xBE, CHR 0xE5, CHR 0x83, CHR 0x8F,
                  CHR 0xE8, CHR 0xBE, CHR 0x93, CHR 0xE5, CHR 0x87, CHR 0xBA],
        d_inputs = [\<lparr> ps_name = name_image, ps_type = PT_image, ps_connected = None,
                      ps_isReferenceInput = None, ps_widget = None \<rparr>],
        d_outputs = [],
        d_defaultData = Some [(''format'', JStr ''png''), (''quality'', JNum 90)] \<rparr>]"

definition upload_node :: NodeInstance where
  "upload_node =
     \<lparr> n_id = ''n1'', n_type = ''image-upload'', n_position = (0, 0),
       n_data = [(''imageUrl'', JStr ''a.png''), (''fileName'', JStr ''a.png'')],
       n_inputs = [],
       n_outputs = [\<lparr> p_id = ''output-0'', p_name = name_image, p_type = PT_image,
                      p_direction = Dir_output, p_connected = Some True,
                      p_isReferenceInput = None, p_widget = None \<rparr>],
       n_size = None \<rparr>"

definition output_node :: NodeInstance where
  "output_node =
     \<lparr> n_id = ''n2'', n_type = ''image-output'', n_position = (300, 0),
       n_data = [(''format'', JStr ''png''), (''quality'', JNum 90)],
       n_inputs = [\<lparr> p_id = ''input-0'', p_name = name_image, p_type = PT_image,
                     p_direction = Dir_input, p_connected = Some True,
                     p_isReferenceInput = None, p_widget = None \<rparr>],
       n_outputs = [],
       n_size = None \<rparr>"

definition image_conns :: "Connection list" where
  "image_conns = [ex_conn ''c1'' ''n1'' ''output-0'' ''n2'' ''input-0'']"

text \<open>
  Example inputs: the registry after a plug-in with the node \<open>blend\<close> (inputs \<open>image:
  IMAGE\<close>, \<open>factor: INT\<close>, \<open>mode: [normal, add]\<close>) has been registered, and an external
  workflow with one node of that type.
\<close>

definition blend_registry :: "NodeDefinition list" where
  "blend_registry =
     [\<lparr> d_type = ''comfy-blend'', d_name = ''blend'',
        d_inputs =
          [\<lparr> ps_name = ''image'', ps_type = PT_image, ps_connected = None,
             ps_isReferenceInput = None, ps_widget = None \<rparr>,
           \<lparr> ps_name = ''factor'', ps_type = PT_int, ps_connected = None,
             ps_isReferenceInput = None,
             ps_widget = Some \<lparr> w_type = W_number, w_default = Some (JNum 0), w_min = None,
                                 w_max = None, w_step = Some 1, w_options = None \<rparr> \<rparr>,
           \<lparr> ps_name = ''mode'', ps_type = PT_combo, ps_connected = None,
             ps_isReferenceInput = None,
             ps_widget = Some \<lparr> w_type = W_combo, w_default = Some (JStr ''normal''),
                                 w_min = None, w_max = None, w_step = None,
                                 w_options = Some [''normal'', ''add''] \<rparr> \<rparr>],
        d_outputs =
          [\<lparr> ps_name = ''IMAGE'', ps_type = PT_image, ps_connected = None,
             ps_isReferenceInput = None, ps_widget = None \<rparr>],
        d_defaultData = Some [(''factor'', JNum 0), (''mode'', JStr ''normal'')] \<rparr>]"

definition blend_workflow :: ComfyUIWorkflow where
  "blend_workflow =
     \<lparr> last_node_id = 1, last_link_id = 0,
       cw_nodes =
         [\<lparr> cn_id = 1, cn_type = ''blend'', cn_pos = (0, 0), cn_size = (200, 100),
            cn_inputs = Some [\<lparr> ci_name = ''image'', ci_type = ''IMAGE'', ci_link = None \<rparr>],
            cn_outputs = Some [\<lparr> co_name = ''IMAGE'', co_type = ''IMAGE'', co_links = Some [],
                                co_slot_index = Some 0 \<rparr>],
            cn_widgets_values = Some [JNum 5, JStr ''add''] \<rparr>],
       cw_links = [] \<rparr>"

chapter \<open>Properties\<close>

section \<open>Graph model: the workflow store: properties\<close>

lemma removeNode_nodes:
  "nodes (removeNode nodeId state) = filter (\<lambda>n. n_id n \<noteq> nodeId) (nodes state)"
  by (simp add: removeNode_def)

lemma removeNode_connections:
  "connections (removeNode nodeId state) =
     filter (\<lambda>c. sourceNodeId c \<noteq> nodeId \<and> targetNodeId c \<noteq> nodeId) (connections state)"
  by (simp add: removeNode_def)

text \<open>
  Claim C8, amended. \<open>removeNode\<close> keeps exactly the nodes with another id and exactly the
  connections that reference the id neither as source nor as target, in their order. For an
  id that no node has, the node list is unchanged; the connection list is unchanged when no
  connection references the id.
\<close>

theorem removeNode_frame:
  "nodes (removeNode nodeId state) = filter (\<lambda>n. n_id n \<noteq> nodeId) (nodes state) \<and>
   connections (removeNode nodeId state) =
     filter (\<lambda>c. sourceNodeId c \<noteq> nodeId \<and> targetNodeId c \<noteq> nodeId) (connections state) \<and>
   (nodeId \<notin> n_id ` set (nodes state) \<longrightarrow> nodes (removeNode nodeId state) = nodes state) \<and>
   ((\<forall>c \<in> set (connections state). sourceNodeId c \<noteq> nodeId \<and> targetNodeId c \<noteq> nodeId) \<longrightarrow>
      connections (removeNode nodeId state) = connections state)"
proof -
  have "nodeId \<notin> n_id ` set (nodes state) \<Longrightarrow> filter (\<lambda>n. n_id n \<noteq> nodeId) (nodes state) = nodes state"
    by (rule filter_True) auto
  then show ?thesis
    by (simp add: removeNode_nodes removeNode_connections)
qed

text \<open>
  The theorem at a store with one node and one connection to an id that is not a node.
\<close>

theorem removeNode_frame_witness:
  "nodes (removeNode ''a'' dangling_store) = [] \<and>
   connections (removeNode ''a'' dangling_store) = [] \<and>
   nodes (removeNode ''b'' dangling_store) = nodes dangling_store \<and>
   connections (removeNode ''b'' dangling_store) = connections dangling_store"
  using removeNode_frame [of "''a''" dangling_store] removeNode_frame [of "''b''" dangling_store]
  by (simp add: dangling_store_def ex_node_def ex_conn_def)

text \<open>
  Claim C8 as stated fails on a store whose connection list references an id that is not a
  node: removing that unknown id deletes the connection.
\<close>

theorem removeNode_unknown_counterexample:
  "''x'' \<notin> n_id ` set (nodes dangling_store) \<and>
   connections (removeNode ''x'' dangling_store) \<noteq> connections dangling_store"
  by (simp add: removeNode_def dangling_store_def ex_node_def ex_conn_def)

lemma addConnection_duplicate:
  "list_ex (same_endpoints connection) (connections state) \<Longrightarrow>
     addConnection uid connection state = state"
  by (simp add: addConnection_def)

lemma addConnection_connections:
  "\<not> list_ex (same_endpoints connection) (connections state) \<Longrightarrow>
     connections (addConnection uid connection state) =
       filter (\<lambda>c. \<not> same_target connection c) (connections state) @ [connection\<lparr>c_id := uid\<rparr>]"
proof -
  have "\<not> list_ex (same_target connection) (connections state) \<Longrightarrow>
          filter (\<lambda>c. \<not> same_target connection c) (connections state) = connections state"
    by (rule filter_True) (auto simp: list_ex_iff)
  then show "\<not> list_ex (same_endpoints connection) (connections state) \<Longrightarrow> ?thesis"
    by (auto simp: addConnection_def Let_def)
qed

lemma same_target_refl: "same_target connection (connection\<lparr>c_id := uid\<rparr>)"
  by (simp add: same_target_def)

text \<open>
  Claim C4, amended. When the new connection is not a duplicate of an existing one (same
  source port and same target port), exactly one connection terminates at its target port
  afterwards, the new one. When it is a duplicate, the connection list is unchanged.
\<close>

theorem addConnection_last_write_wins:
  "(\<not> list_ex (same_endpoints connection) (connections state) \<longrightarrow>
      filter (same_target connection) (connections (addConnection uid connection state)) =
        [connection\<lparr>c_id := uid\<rparr>]) \<and>
   (list_ex (same_endpoints connection) (connections state) \<longrightarrow>
      connections (addConnection uid connection state) = connections state)"
  by (simp add: addConnection_duplicate addConnection_connections same_target_refl)

theorem addConnection_last_write_wins_witness:
  "filter (same_target (ex_conn '''' ''s2'' ''output-0'' ''t'' ''input-0''))
      (connections (addConnection ''c2'' (ex_conn '''' ''s2'' ''output-0'' ''t'' ''input-0'') occupied_store))
     = [ex_conn ''c2'' ''s2'' ''output-0'' ''t'' ''input-0''] \<and>
   connections (addConnection ''c2'' (ex_conn '''' ''s1'' ''output-0'' ''t'' ''input-0'') occupied_store)
     = connections occupied_store"
  using addConnection_last_write_wins [of "ex_conn '''' ''s2'' ''output-0'' ''t'' ''input-0''" occupied_store "''c2''"]
        addConnection_last_write_wins [of "ex_conn '''' ''s1'' ''output-0'' ''t'' ''input-0''" occupied_store "''c2''"]
  by (simp add: occupied_store_def ex_conn_def same_endpoints_def)

text \<open>
  Claim C4 as stated fails when the connection being added has the endpoints of an existing
  one: the duplicate check returns first. On a store with one connection into the input,
  the connection that stays is the old one, with its own id and type, not the new one. On a
  store with two connections into the same input, both stay.
\<close>

theorem addConnection_last_write_wins_counterexample:
  "list_ex (same_target (ex_conn '''' ''s1'' ''output-0'' ''t'' ''input-0''))
     (connections occupied_store) \<and>
   connections (addConnection ''c2''
      ((ex_conn '''' ''s1'' ''output-0'' ''t'' ''input-0'')\<lparr>c_type := Some PT_text\<rparr>) occupied_store)
     = [ex_conn ''c1'' ''s1'' ''output-0'' ''t'' ''input-0''] \<and>
   ex_conn ''c1'' ''s1'' ''output-0'' ''t'' ''input-0'' \<noteq>
     (ex_conn '''' ''s1'' ''output-0'' ''t'' ''input-0'')\<lparr>c_type := Some PT_text, c_id := ''c2''\<rparr> \<and>
   list_ex (same_target (ex_conn '''' ''s1'' ''output-0'' ''t'' ''input-0''))
     (connections doubly_occupied_store) \<and>
   length (filter (same_target (ex_conn '''' ''s1'' ''output-0'' ''t'' ''input-0''))
      (connections (addConnection ''c3'' (ex_conn '''' ''s1'' ''output-0'' ''t'' ''input-0'')
         doubly_occupied_store))) = 2"
  by (simp add: addConnection_def occupied_store_def doubly_occupied_store_def ex_conn_def
        same_endpoints_def same_target_def)

text \<open>
  Claim C5, amended. A duplicate connection leaves the store unchanged. Any other
  connection, a self-loop included, is added.
\<close>

theorem addConnection_rejects_duplicates_only:
  "(list_ex (same_endpoints connection) (connections state) \<longrightarrow>
      addConnection uid connection state = state) \<and>
   (\<not> list_ex (same_endpoints connection) (connections state) \<longrightarrow>
      connection\<lparr>c_id := uid\<rparr> \<in> set (connections (addConnection uid connection state)))"
  by (simp add: addConnection_duplicate addConnection_connections)

theorem addConnection_rejects_duplicates_only_witness:
  "addConnection ''c2'' (ex_conn '''' ''s1'' ''output-0'' ''t'' ''input-0'') occupied_store = occupied_store \<and>
   ex_conn ''c1'' ''a'' ''output-0'' ''a'' ''input-0'' \<in>
     set (connections (addConnection ''c1'' (ex_conn '''' ''a'' ''output-0'' ''a'' ''input-0'') empty_store))"
  using addConnection_rejects_duplicates_only [of "ex_conn '''' ''s1'' ''output-0'' ''t'' ''input-0''" occupied_store "''c2''"]
        addConnection_rejects_duplicates_only [of "ex_conn '''' ''a'' ''output-0'' ''a'' ''input-0''" empty_store "''c1''"]
  by (simp add: occupied_store_def empty_store_def ex_conn_def same_endpoints_def)

text \<open>
  Claim C5 as stated fails for a self-loop: the connection is added.
\<close>

theorem addConnection_self_loop_counterexample:
  "sourceNodeId (ex_conn '''' ''a'' ''output-0'' ''a'' ''input-0'') =
     targetNodeId (ex_conn '''' ''a'' ''output-0'' ''a'' ''input-0'') \<and>
   connections (addConnection ''c1'' (ex_conn '''' ''a'' ''output-0'' ''a'' ''input-0'') empty_store)
     = [ex_conn ''c1'' ''a'' ''output-0'' ''a'' ''input-0''] \<and>
   connections (addConnection ''c1'' (ex_conn '''' ''a'' ''output-0'' ''a'' ''input-0'') empty_store)
     \<noteq> connections empty_store"
  by (simp add: addConnection_def empty_store_def ex_conn_def same_endpoints_def same_target_def)

lemma removeConnection_clears_flag:
  "connections (removeConnection ''c1'' occupied_store) = [] \<and>
   map (\<lambda>n. (n_id n, map (\<lambda>p. (p_id p, p_connected p)) (n_outputs n)))
       (nodes (removeConnection ''c1'' occupied_store))
     = [(''s1'', [(''output-0'', Some False)]), (''s2'', [(''output-0'', Some False)]), (''t'', [])]"
  by (simp add: removeConnection_def occupied_store_def ex_conn_def ex_node_def ex_port_def
        unmark_connected_def)

text \<open>
  Claim C6 at a failing input. \<open>s1.output-0\<close> feeds \<open>t.input-0\<close>; connecting
  \<open>s2.output-0\<close> to \<open>t.input-0\<close> removes that connection, after which no connection
  leaves \<open>s1.output-0\<close>, yet its \<open>connected\<close> flag is still true. Removing the same
  connection with \<open>removeConnection\<close> clears the flag, as the lemma before shows.
\<close>

theorem addConnection_replace_keeps_stale_flag:
  "connections (addConnection ''c2'' (ex_conn '''' ''s2'' ''output-0'' ''t'' ''input-0'') occupied_store)
     = [ex_conn ''c2'' ''s2'' ''output-0'' ''t'' ''input-0''] \<and>
   \<not> list_ex (\<lambda>c. sourceNodeId c = ''s1'' \<and> sourcePortId c = ''output-0'')
       (connections (addConnection ''c2'' (ex_conn '''' ''s2'' ''output-0'' ''t'' ''input-0'') occupied_store)) \<and>
   map (\<lambda>n. (n_id n, map (\<lambda>p. (p_id p, p_connected p)) (n_outputs n)))
       (nodes (addConnection ''c2'' (ex_conn '''' ''s2'' ''output-0'' ''t'' ''input-0'') occupied_store))
     = [(''s1'', [(''output-0'', Some True)]), (''s2'', [(''output-0'', Some True)]), (''t'', [])]"
  by (simp add: addConnection_def occupied_store_def ex_conn_def ex_node_def ex_port_def
        same_endpoints_def same_target_def mark_connected_def)

section \<open>Execution order: properties\<close>

lemma degree_of_update:
  "degree_of (AList.update k v m) t = (if t = k then v else degree_of m t)"
  by (simp add: degree_of_def update_conv')

lemma targets_of_update:
  "targets_of (AList.update k v m) s = (if s = k then v else targets_of m s)"
  by (simp add: targets_of_def update_conv')

lemma count_connection_pair:
  "count_connection c (deg, adj) =
     (AList.update (targetNodeId c) (degree_of deg (targetNodeId c) + 1) deg,
      AList.update (sourceNodeId c) (targets_of adj (sourceNodeId c) @ [targetNodeId c]) adj)"
  by (simp add: count_connection_def Let_def)

lemma init_node_pair:
  "init_node n (deg, adj) = (AList.update (n_id n) 0 deg, AList.update (n_id n) [] adj)"
  by (simp add: init_node_def)

lemma fold_init_degree:
  "degree_of (fst (fold init_node ns (deg, adj))) t =
     (if t \<in> n_id ` set ns then 0 else degree_of deg t)"
  by (induction ns arbitrary: deg adj) (auto simp: init_node_pair degree_of_update)

lemma fold_init_targets:
  "targets_of (snd (fold init_node ns (deg, adj))) s =
     (if s \<in> n_id ` set ns then [] else targets_of adj s)"
  by (induction ns arbitrary: deg adj) (auto simp: init_node_pair targets_of_update)

lemma fold_init_keys:
  "fst ` set (fst (fold init_node ns (deg, adj))) = fst ` set deg \<union> n_id ` set ns"
  by (induction ns arbitrary: deg adj) (auto simp: init_node_pair dom_update)

lemma fold_init_distinct:
  "distinct (map fst deg) \<Longrightarrow> distinct (map fst (fst (fold init_node ns (deg, adj))))"
  by (induction ns arbitrary: deg adj) (auto simp: init_node_pair distinct_update)

lemma fold_count_degree:
  "degree_of (fst (fold count_connection conns (deg, adj))) t =
     degree_of deg t + int (length (filter (\<lambda>c. targetNodeId c = t) conns))"
  by (induction conns arbitrary: deg adj) (auto simp: count_connection_pair degree_of_update)

lemma fold_count_targets:
  "targets_of (snd (fold count_connection conns (deg, adj))) s =
     targets_of adj s @ out_targets conns s"
  by (induction conns arbitrary: deg adj)
     (auto simp: count_connection_pair targets_of_update out_targets_def)

lemma fold_count_keys:
  "fst ` set (fst (fold count_connection conns (deg, adj))) =
     fst ` set deg \<union> targetNodeId ` set conns"
  by (induction conns arbitrary: deg adj) (auto simp: count_connection_pair dom_update)

lemma fold_count_distinct:
  "distinct (map fst deg) \<Longrightarrow>
     distinct (map fst (fst (fold count_connection conns (deg, adj))))"
  by (induction conns arbitrary: deg adj) (auto simp: count_connection_pair distinct_update)

lemma visit_target_pair:
  "visit_target t (deg, q) =
     (AList.update t (degree_of deg t - 1) deg,
      if degree_of deg t = 1 then q @ [t] else q)"
  by (simp add: visit_target_def Let_def)

lemma fold_visit_degree:
  "degree_of (fst (fold visit_target ts (deg, q))) t = degree_of deg t - int (count_list ts t)"
  by (induction ts arbitrary: deg q) (auto simp: visit_target_pair degree_of_update)

lemma fold_visit_queue:
  "\<exists>new. snd (fold visit_target ts (deg, q)) = q @ new \<and> distinct new \<and>
     set new = {t \<in> set ts. 1 \<le> degree_of deg t \<and> degree_of deg t \<le> int (count_list ts t)}"
proof (induction ts arbitrary: deg q)
  case Nil
  show ?case by simp
next
  case (Cons a ts)
  let ?deg1 = "AList.update a (degree_of deg a - 1) deg"
  let ?q1 = "if degree_of deg a = 1 then q @ [a] else q"
  let ?P = "\<lambda>t. t \<in> set (a # ts) \<and> 1 \<le> degree_of deg t \<and>
                 degree_of deg t \<le> int (count_list (a # ts) t)"
  from Cons.IH [of ?deg1 ?q1] obtain new where
    new: "snd (fold visit_target ts (?deg1, ?q1)) = ?q1 @ new" "distinct new"
      "set new = {t \<in> set ts. 1 \<le> degree_of ?deg1 t \<and> degree_of ?deg1 t \<le> int (count_list ts t)}"
    by blast
  have other: "t \<in> set new \<longleftrightarrow> ?P t" if "t \<noteq> a" for t
    using that by (simp add: new(3) degree_of_update)
  have pos: "a \<in> set ts \<longleftrightarrow> 0 < count_list ts a"
    using count_list_0_iff [of ts a] by linarith
  have self: "a \<in> set new \<longleftrightarrow> 2 \<le> degree_of deg a \<and> degree_of deg a \<le> int (count_list ts a) + 1"
    unfolding new(3) using pos by (simp add: degree_of_update) linarith
  show ?case
  proof (cases "degree_of deg a = 1")
    case True
    have "a \<notin> set new" using self True by simp
    moreover have "t \<in> set (a # new) \<longleftrightarrow> ?P t" for t
      using other [of t] True by (cases "t = a") simp_all
    then have "set (a # new) = {t. ?P t}" by blast
    moreover have "snd (fold visit_target (a # ts) (deg, q)) = q @ a # new"
      using new(1) True by (simp add: visit_target_pair)
    ultimately show ?thesis
      using new(2) by (intro exI [of _ "a # new"]) simp
  next
    case False
    have "t \<in> set new \<longleftrightarrow> ?P t" for t
    proof (cases "t = a")
      case True
      with self False show ?thesis by simp linarith
    next
      case False
      then show ?thesis by (rule other)
    qed
    then have "set new = {t. ?P t}" by blast
    moreover have "snd (fold visit_target (a # ts) (deg, q)) = q @ new"
      using new(1) False by (simp add: visit_target_pair)
    ultimately show ?thesis
      using new(2) by (intro exI [of _ new]) simp
  qed
qed

lemma remaining_insert:
  "n \<notin> R \<Longrightarrow>
     remaining conns R t = remaining conns (insert n R) t + count_list (out_targets conns n) t"
  by (induction conns) (auto simp: remaining_def out_targets_def)

lemma precedesI:
  "i < j \<Longrightarrow> j < length L \<Longrightarrow> L ! i = s \<Longrightarrow> L ! j = t \<Longrightarrow> precedes L s t"
  unfolding precedes_def by blast

lemma precedesE:
  assumes "precedes L s t"
  obtains i j where "i < j" "j < length L" "L ! i = s" "L ! j = t"
  using assms unfolding precedes_def by blast

lemma precedes_append:
  assumes "precedes L s t"
  shows "precedes (L @ M) s t"
proof -
  from assms obtain i j where ij: "i < j" "j < length L" "L ! i = s" "L ! j = t"
    by (rule precedesE)
  show ?thesis
    by (rule precedesI [of i j]) (use ij in \<open>simp_all add: nth_append\<close>)
qed

lemma precedes_new:
  assumes "s \<in> set L" "t \<in> set M"
  shows "precedes (L @ M) s t"
proof -
  from assms obtain i k where i: "i < length L" "L ! i = s" and k: "k < length M" "M ! k = t"
    by (auto simp: in_set_conv_nth)
  show ?thesis
    by (rule precedesI [of i "length L + k"]) (use i k in \<open>simp_all add: nth_append\<close>)
qed

lemma precedes_trans:
  assumes "distinct L" "precedes L s t" "precedes L t u"
  shows "precedes L s u"
proof -
  from assms(2) obtain i j where ij: "i < j" "j < length L" "L ! i = s" "L ! j = t"
    by (rule precedesE)
  from assms(3) obtain k l where kl: "k < l" "l < length L" "L ! k = t" "L ! l = u"
    by (rule precedesE)
  from ij kl have "L ! j = L ! k" "j < length L" "k < length L" by simp_all
  with assms(1) have "j = k" by (simp add: nth_eq_iff_index_eq)
  show ?thesis
    by (rule precedesI [of i l]) (use ij kl \<open>j = k\<close> in simp_all)
qed

lemma precedes_irrefl:
  assumes "distinct L"
  shows "\<not> precedes L s s"
proof
  assume "precedes L s s"
  then obtain i j where ij: "i < j" "j < length L" "L ! i = s" "L ! j = s"
    by (rule precedesE)
  then have "L ! i = L ! j" "i < length L" "j < length L" by simp_all
  with assms have "i = j" by (simp add: nth_eq_iff_index_eq)
  with ij(1) show False by simp
qed

lemma precedes_in_set:
  assumes "precedes L s t"
  shows "s \<in> set L \<and> t \<in> set L"
proof -
  from assms obtain i j where ij: "i < j" "j < length L" "L ! i = s" "L ! j = t"
    by (rule precedesE)
  then have "i < length L" by simp
  with ij show ?thesis using nth_mem by blast
qed

lemma remaining_zero_sources:
  "remaining conns R t = 0 \<Longrightarrow> c \<in> set conns \<Longrightarrow> targetNodeId c = t \<Longrightarrow> sourceNodeId c \<in> R"
  by (auto simp: remaining_def filter_empty_conv)

lemma remaining_pos_target:
  "0 < remaining conns R t \<Longrightarrow> t \<in> targetNodeId ` set conns"
  by (auto simp: remaining_def filter_empty_conv)

lemma kahn_inv_step:
  assumes inv: "kahn_inv conns K deg (n # q) result"
    and f: "fold visit_target (out_targets conns n) (deg, q) = (deg', q')"
    and K: "targetNodeId ` set conns \<subseteq> K"
  shows "kahn_inv conns K deg' q' (result @ [n])"
proof -
  let ?R = "set result" and ?R' = "set (result @ [n])"
  let ?ts = "out_targets conns n"
  from inv have dist: "distinct (result @ n # q)"
    and deg: "\<And>t. degree_of deg t = int (remaining conns ?R t)"
    and mem: "\<And>t. t \<in> set (result @ n # q) \<longleftrightarrow> t \<in> K \<and> remaining conns ?R t = 0"
    and ord: "\<And>c. c \<in> set conns \<Longrightarrow> targetNodeId c \<in> set (result @ n # q) \<Longrightarrow>
                precedes (result @ n # q) (sourceNodeId c) (targetNodeId c)"
    by (auto simp: kahn_inv_def)
  from dist have nR: "n \<notin> ?R" by simp
  have R': "?R' = insert n ?R" by simp
  have rem: "remaining conns ?R t = remaining conns ?R' t + count_list ?ts t" for t
    unfolding R' by (rule remaining_insert [OF nR])
  from fold_visit_queue [of ?ts deg q] f obtain new where
    q': "q' = q @ new" and dnew: "distinct new" and
    snew: "set new = {t \<in> set ?ts. 1 \<le> degree_of deg t \<and> degree_of deg t \<le> int (count_list ?ts t)}"
    by auto
  have new_iff: "t \<in> set new \<longleftrightarrow> 0 < remaining conns ?R t \<and> remaining conns ?R' t = 0" for t
  proof -
    have "t \<in> set new \<longleftrightarrow> t \<in> set ?ts \<and> 0 < remaining conns ?R t \<and> remaining conns ?R t \<le> count_list ?ts t"
      unfolding snew deg by auto
    also have "\<dots> \<longleftrightarrow> 0 < remaining conns ?R t \<and> remaining conns ?R' t = 0"
      using rem [of t] by (cases "count_list ?ts t = 0") (auto simp: count_list_0_iff)
    finally show ?thesis .
  qed
  have deg': "degree_of deg' t = int (remaining conns ?R' t)" for t
    using fold_visit_degree [of ?ts deg q t] f rem [of t] deg [of t] by simp
  have L': "(result @ [n]) @ q' = (result @ n # q) @ new" by (simp add: q')
  have disj: "set new \<inter> set (result @ n # q) = {}"
  proof -
    have False if a: "x \<in> set new" and b: "x \<in> set (result @ n # q)" for x
    proof -
      from a have "0 < remaining conns ?R x" using new_iff by blast
      moreover from b have "remaining conns ?R x = 0" using mem by blast
      ultimately show False by simp
    qed
    then show ?thesis by blast
  qed
  have dist': "distinct ((result @ [n]) @ q')"
    unfolding L' using dist dnew disj by (simp only: distinct_append) auto
  have mem': "t \<in> set ((result @ [n]) @ q') \<longleftrightarrow> t \<in> K \<and> remaining conns ?R' t = 0" for t
  proof -
    have "t \<in> set ((result @ [n]) @ q') \<longleftrightarrow> (t \<in> K \<and> remaining conns ?R t = 0) \<or> t \<in> set new"
      unfolding L' using mem [of t] by auto
    also have "\<dots> \<longleftrightarrow> t \<in> K \<and> remaining conns ?R' t = 0"
      using new_iff [of t] rem [of t] remaining_pos_target [of conns ?R t] K by auto
    finally show ?thesis .
  qed
  have ord': "precedes ((result @ [n]) @ q') (sourceNodeId c) (targetNodeId c)"
    if c: "c \<in> set conns" and t: "targetNodeId c \<in> set ((result @ [n]) @ q')" for c
  proof (cases "targetNodeId c \<in> set (result @ n # q)")
    case True
    from precedes_append [OF ord [OF c True]] show ?thesis unfolding L' .
  next
    case False
    with t have tn: "targetNodeId c \<in> set new" unfolding L' by auto
    then have "remaining conns ?R' (targetNodeId c) = 0" using new_iff by blast
    from remaining_zero_sources [OF this c refl] have "sourceNodeId c \<in> set (result @ n # q)" by auto
    from precedes_new [OF this tn] show ?thesis unfolding L' .
  qed
  show ?thesis
    unfolding kahn_inv_def using dist' deg' mem' ord' by blast
qed

lemma kahn_loop_correct:
  assumes "kahn_inv conns K deg queue result"
    and "\<And>s. targets_of adj s = out_targets conns s"
    and "targetNodeId ` set conns \<subseteq> K"
  shows "\<exists>deg'. kahn_inv conns K deg' [] (kahn_loop adj deg queue result)"
  using assms
proof (induction adj deg queue result rule: kahn_loop.induct)
  case (1 adjacency inDegree result)
  then show ?case by auto
next
  case (2 adjacency inDegree nodeId queue result)
  obtain deg' q' where f: "fold visit_target (targets_of adjacency nodeId) (inDegree, queue) = (deg', q')"
    by (cases "fold visit_target (targets_of adjacency nodeId) (inDegree, queue)")
  then have f': "fold visit_target (out_targets conns nodeId) (inDegree, queue) = (deg', q')"
    using "2.prems"(2) by simp
  from kahn_inv_step [OF "2.prems"(1) f' "2.prems"(3)]
  have "kahn_inv conns K deg' q' (result @ [nodeId])" .
  from "2.IH" [OF f [symmetric] this "2.prems"(2,3)] f
  show ?case by simp
qed

lemma remaining_empty:
  "remaining conns {} t = length (filter (\<lambda>c. targetNodeId c = t) conns)"
  by (simp add: remaining_def)

lemma zero_degree_keys:
  assumes "distinct (map fst deg)"
  shows "distinct (map fst (filter (\<lambda>(nodeId, degree). degree = 0) deg))"
    and "t \<in> set (map fst (filter (\<lambda>(nodeId, degree). degree = 0) deg)) \<longleftrightarrow>
           t \<in> fst ` set deg \<and> degree_of deg t = 0"
proof -
  show "distinct (map fst (filter (\<lambda>(nodeId, degree). degree = 0) deg))"
    using assms by (rule distinct_map_filter)
  have "t \<in> set (map fst (filter (\<lambda>(nodeId, degree). degree = 0) deg)) \<longleftrightarrow> (t, 0) \<in> set deg"
    by force
  also have "\<dots> \<longleftrightarrow> map_of deg t = Some 0"
    using assms by (simp add: map_of_eq_Some_iff)
  also have "\<dots> \<longleftrightarrow> t \<in> fst ` set deg \<and> degree_of deg t = 0"
    by (auto simp: degree_of_def dom_map_of_conv_image_fst [symmetric] domIff split: option.splits)
  finally show "t \<in> set (map fst (filter (\<lambda>(nodeId, degree). degree = 0) deg)) \<longleftrightarrow>
           t \<in> fst ` set deg \<and> degree_of deg t = 0" .
qed

lemma getExecutionOrder_inv:
  "\<exists>deg'. kahn_inv conns (n_id ` set ns \<union> targetNodeId ` set conns) deg' []
             (getExecutionOrder ns conns)"
proof -
  let ?K = "n_id ` set ns \<union> targetNodeId ` set conns"
  obtain deg0 adj0 where i: "fold init_node ns ([], []) = (deg0, adj0)"
    by (cases "fold init_node ns ([], [])")
  obtain deg adj where c: "fold count_connection conns (deg0, adj0) = (deg, adj)"
    by (cases "fold count_connection conns (deg0, adj0)")
  let ?queue = "map fst (filter (\<lambda>(nodeId, degree). degree = 0) deg)"
  have order: "getExecutionOrder ns conns = kahn_loop adj deg ?queue []"
    by (simp add: getExecutionOrder_def i c)
  have d0: "degree_of deg0 t = 0" for t
    using fold_init_degree [of ns "[]" "[]" t] by (simp add: i degree_of_def)
  have a0: "targets_of adj0 s = []" for s
    using fold_init_targets [of ns "[]" "[]" s] by (simp add: i targets_of_def)
  have k0: "fst ` set deg0 = n_id ` set ns"
    using fold_init_keys [of ns "[]" "[]"] by (simp add: i)
  have dist0: "distinct (map fst deg0)"
    using fold_init_distinct [of "[]" ns "[]"] by (simp add: i)
  have deg: "degree_of deg t = int (remaining conns {} t)" for t
    using fold_count_degree [of conns deg0 adj0 t] by (simp add: c d0 remaining_empty)
  have adj: "targets_of adj s = out_targets conns s" for s
    using fold_count_targets [of conns deg0 adj0 s] by (simp add: c a0)
  have keys: "fst ` set deg = ?K"
    using fold_count_keys [of conns deg0 adj0] by (simp add: c k0)
  have dist: "distinct (map fst deg)"
    using fold_count_distinct [OF dist0, of conns adj0] by (simp add: c)
  have q_dist: "distinct ?queue" using dist by (rule zero_degree_keys(1))
  have q_mem: "t \<in> set ?queue \<longleftrightarrow> t \<in> ?K \<and> remaining conns {} t = 0" for t
    using zero_degree_keys(2) [OF dist, of t] deg [of t] keys by simp
  have q_ord: "targetNodeId c \<notin> set ?queue" if "c \<in> set conns" for c
  proof
    assume "targetNodeId c \<in> set ?queue"
    then have "remaining conns {} (targetNodeId c) = 0" using q_mem by blast
    from remaining_zero_sources [OF this that refl] show False by simp
  qed
  have h1: "distinct ([] @ ?queue)"
    using q_dist by (simp only: append_Nil)
  have h2: "\<forall>t. degree_of deg t = int (remaining conns (set []) t)"
    using deg by (simp only: list.set(1)) blast
  have h3: "\<forall>t. t \<in> set ([] @ ?queue) \<longleftrightarrow> t \<in> ?K \<and> remaining conns (set []) t = 0"
    using q_mem by (simp only: append_Nil list.set(1)) blast
  have h4: "\<forall>c \<in> set conns. targetNodeId c \<in> set ([] @ ?queue) \<longrightarrow>
              precedes ([] @ ?queue) (sourceNodeId c) (targetNodeId c)"
    using q_ord by (simp only: append_Nil) blast
  have "kahn_inv conns ?K deg ?queue []"
    unfolding kahn_inv_def using h1 h2 h3 h4 by (intro conjI)
  from kahn_loop_correct [OF this adj] show ?thesis
    unfolding order by blast
qed

lemma getExecutionOrder_distinct: "distinct (getExecutionOrder ns conns)"
  using getExecutionOrder_inv [of conns ns] by (auto simp: kahn_inv_def)

lemma getExecutionOrder_member:
  "t \<in> set (getExecutionOrder ns conns) \<longleftrightarrow>
     t \<in> n_id ` set ns \<union> targetNodeId ` set conns \<and>
     remaining conns (set (getExecutionOrder ns conns)) t = 0"
  using getExecutionOrder_inv [of conns ns] by (auto simp: kahn_inv_def)

lemma getExecutionOrder_precedes:
  "c \<in> set conns \<Longrightarrow> targetNodeId c \<in> set (getExecutionOrder ns conns) \<Longrightarrow>
     precedes (getExecutionOrder ns conns) (sourceNodeId c) (targetNodeId c)"
  using getExecutionOrder_inv [of conns ns] by (auto simp: kahn_inv_def)

lemma getExecutionOrder_path:
  assumes "(u, v) \<in> (connection_edges conns)\<^sup>+" and "v \<in> set (getExecutionOrder ns conns)"
  shows "precedes (getExecutionOrder ns conns) u v"
  using assms
proof (induction rule: trancl_induct)
  case (base y)
  then obtain c where "c \<in> set conns" "sourceNodeId c = u" "targetNodeId c = y"
    by (auto simp: connection_edges_def)
  with base(2) getExecutionOrder_precedes [of c conns ns] show ?case by simp
next
  case (step y z)
  from step(2) obtain c where c: "c \<in> set conns" "sourceNodeId c = y" "targetNodeId c = z"
    by (auto simp: connection_edges_def)
  with step(4) getExecutionOrder_precedes [of c conns ns]
  have yz: "precedes (getExecutionOrder ns conns) y z" by simp
  then have "y \<in> set (getExecutionOrder ns conns)" using precedes_in_set by blast
  from step(3) [OF this] yz show ?case
    using precedes_trans [OF getExecutionOrder_distinct] by blast
qed

lemma getExecutionOrder_skips_cycles:
  "on_cycle conns v \<Longrightarrow> v \<notin> set (getExecutionOrder ns conns)"
  using getExecutionOrder_path [of v v conns ns] precedes_irrefl [OF getExecutionOrder_distinct]
  unfolding on_cycle_def by blast

lemma precedes_indices:
  assumes "distinct L" "precedes L s t" "i < length L" "j < length L" "L ! i = t" "L ! j = s"
  shows "j < i"
proof -
  from assms(2) obtain k l where kl: "k < l" "l < length L" "L ! k = s" "L ! l = t"
    by (rule precedesE)
  then have k: "k < length L" by simp
  have "L ! k = L ! j" "L ! l = L ! i" using kl assms(5,6) by simp_all
  then have "k = j" "l = i"
    using nth_eq_iff_index_eq [OF assms(1) k assms(4)]
      nth_eq_iff_index_eq [OF assms(1) kl(2) assms(3)] by blast+
  with kl(1) show ?thesis by simp
qed

lemma remaining_zero_iff:
  "remaining conns R t = 0 \<longleftrightarrow> (\<forall>c \<in> set conns. targetNodeId c = t \<longrightarrow> sourceNodeId c \<in> R)"
  by (auto simp: remaining_def filter_empty_conv)

text \<open>
  For an acyclic graph in which every connection's source is a node or the target of a
  connection, the order contains every node.
\<close>

lemma getExecutionOrder_complete:
  assumes acyclic: "acyclic (connection_edges conns)"
    and sources: "sourceNodeId ` set conns \<subseteq> n_id ` set ns \<union> targetNodeId ` set conns"
  shows "set (getExecutionOrder ns conns) = n_id ` set ns \<union> targetNodeId ` set conns"
proof -
  let ?K = "n_id ` set ns \<union> targetNodeId ` set conns"
  let ?order = "getExecutionOrder ns conns"
  have "finite (connection_edges conns)" by (simp add: connection_edges_def)
  then have "wf (connection_edges conns)" using acyclic by (rule finite_acyclic_wf)
  then have "t \<in> ?K \<longrightarrow> t \<in> set ?order" for t
  proof (induction t rule: wf_induct_rule)
    case (less t)
    show ?case
    proof
      assume t: "t \<in> ?K"
      have "sourceNodeId c \<in> set ?order" if c: "c \<in> set conns" "targetNodeId c = t" for c
      proof -
        from c have "(sourceNodeId c, t) \<in> connection_edges conns"
          by (force simp: connection_edges_def)
        moreover from c sources have "sourceNodeId c \<in> ?K" by blast
        ultimately show ?thesis using less by blast
      qed
      then have "remaining conns (set ?order) t = 0" by (simp add: remaining_zero_iff)
      with t show "t \<in> set ?order" using getExecutionOrder_member [of t ns conns] by blast
    qed
  qed
  moreover have "set ?order \<subseteq> ?K" using getExecutionOrder_member [of _ ns conns] by blast
  ultimately show ?thesis by blast
qed

lemma cyclic_order: "getExecutionOrder cyclic_nodes cyclic_conns = [''a'', ''b'']"
  by code_simp

lemma cyclic_on_cycle: "on_cycle cyclic_conns ''c''"
proof -
  have "(''c'', ''d'') \<in> connection_edges cyclic_conns" "(''d'', ''c'') \<in> connection_edges cyclic_conns"
    by (simp_all add: connection_edges_def cyclic_conns_def ex_conn_def)
  then show ?thesis unfolding on_cycle_def by (rule trancl_into_trancl [OF r_into_trancl])
qed

text \<open>
  Claim C1. For every connection whose target is in the returned order, the source is in
  the order too, and at a strictly smaller index: a node is never placed before a node with
  a connection into one of its inputs. This holds for every graph, so in particular for
  every acyclic one. No node on a cycle appears in the order.
\<close>

theorem getExecutionOrder_topological:
  "(\<forall>c \<in> set conns. targetNodeId c \<in> set (getExecutionOrder ns conns) \<longrightarrow>
      sourceNodeId c \<in> set (getExecutionOrder ns conns) \<and>
      (\<forall>i < length (getExecutionOrder ns conns). \<forall>j < length (getExecutionOrder ns conns).
         getExecutionOrder ns conns ! i = targetNodeId c \<and>
         getExecutionOrder ns conns ! j = sourceNodeId c \<longrightarrow> j < i)) \<and>
   (\<forall>v. on_cycle conns v \<longrightarrow> v \<notin> set (getExecutionOrder ns conns))"
proof (intro conjI ballI allI impI)
  fix c assume c: "c \<in> set conns" "targetNodeId c \<in> set (getExecutionOrder ns conns)"
  from getExecutionOrder_precedes [OF this] show "sourceNodeId c \<in> set (getExecutionOrder ns conns)"
    using precedes_in_set by blast
next
  fix c i j
  assume c: "c \<in> set conns" "targetNodeId c \<in> set (getExecutionOrder ns conns)"
    and ij: "i < length (getExecutionOrder ns conns)" "j < length (getExecutionOrder ns conns)"
      "getExecutionOrder ns conns ! i = targetNodeId c \<and>
       getExecutionOrder ns conns ! j = sourceNodeId c"
  from precedes_indices [OF getExecutionOrder_distinct getExecutionOrder_precedes [OF c] ij(1,2)] ij(3)
  show "j < i" by blast
next
  fix v assume "on_cycle conns v"
  then show "v \<notin> set (getExecutionOrder ns conns)" by (rule getExecutionOrder_skips_cycles)
qed

theorem getExecutionOrder_topological_witness:
  "ex_conn ''c1'' ''a'' ''output-0'' ''b'' ''input-0'' \<in> set cyclic_conns \<and>
   ''b'' \<in> set (getExecutionOrder cyclic_nodes cyclic_conns) \<and>
   ''a'' \<in> set (getExecutionOrder cyclic_nodes cyclic_conns) \<and>
   getExecutionOrder cyclic_nodes cyclic_conns ! 0 = ''a'' \<and>
   getExecutionOrder cyclic_nodes cyclic_conns ! 1 = ''b'' \<and>
   on_cycle cyclic_conns ''c'' \<and> ''c'' \<notin> set (getExecutionOrder cyclic_nodes cyclic_conns)"
proof -
  have c: "ex_conn ''c1'' ''a'' ''output-0'' ''b'' ''input-0'' \<in> set cyclic_conns"
    by (simp add: cyclic_conns_def)
  have b: "''b'' \<in> set (getExecutionOrder cyclic_nodes cyclic_conns)"
    by (simp add: cyclic_order)
  have "''a'' \<in> set (getExecutionOrder cyclic_nodes cyclic_conns) \<and>
        ''c'' \<notin> set (getExecutionOrder cyclic_nodes cyclic_conns)"
    using getExecutionOrder_topological [of cyclic_conns cyclic_nodes] c b cyclic_on_cycle
    by (auto simp: ex_conn_def)
  with c b cyclic_on_cycle show ?thesis
    by (simp add: cyclic_order)
qed

section \<open>Executor: properties\<close>

lemma nodeOutputs_emit [simp]: "nodeOutputs (emit e ctx) = nodeOutputs ctx"
  by (simp add: emit_def)

lemma events_emit [simp]: "events (emit e ctx) = events ctx @ [e]"
  by (simp add: emit_def)

lemma nodeOutputs_fold_progress [simp]:
  "nodeOutputs (fold (\<lambda>(p, m). emit (Progress i p m)) ps ctx) = nodeOutputs ctx"
  by (induction ps arbitrary: ctx) auto

lemma error_events_for_snoc:
  "error_events_for j (es @ [e]) =
     error_events_for j es @ (case e of NodeError i m \<Rightarrow> if i = j then [e] else [] | _ \<Rightarrow> [])"
  by (cases e) (simp_all add: error_events_for_def)

lemma errors_fold_progress [simp]:
  "error_events_for j (events (fold (\<lambda>(p, m). emit (Progress i p m)) ps ctx)) =
     error_events_for j (events ctx)"
  by (induction ps arbitrary: ctx) (auto simp: error_events_for_snoc)

lemma executeNode_nodeOutputs:
  "nodeOutputs (snd (executeNode registry cap node conns ctx)) = nodeOutputs ctx"
  by (simp add: executeNode_def Let_def split: option.splits prod.splits sum.splits)


lemma find_node_id:
  "find (\<lambda>n. n_id n = i) ns = Some node \<Longrightarrow> node \<in> set ns \<and> n_id node = i"
  by (auto simp: find_Some_iff)









lemma complete_events_for_snoc:
  "complete_events_for j (es @ [e]) =
     complete_events_for j es @
       (case e of NodeComplete i outputs \<Rightarrow> if i = j then [e] else [] | _ \<Rightarrow> [])"
  by (cases e) (simp_all add: complete_events_for_def)

lemma complete_fold_progress [simp]:
  "complete_events_for j (events (fold (\<lambda>(p, m). emit (Progress i p m)) ps ctx)) =
     complete_events_for j (events ctx)"
  by (induction ps arbitrary: ctx) (auto simp: complete_events_for_snoc)

lemma executeNode_complete:
  "complete_events_for j (events (snd (executeNode registry cap node conns ctx))) =
     complete_events_for j (events ctx)"
  by (simp add: executeNode_def Let_def complete_events_for_snoc
        split: option.splits prod.splits sum.splits)

lemma run_order_complete:
  "length (complete_events_for j (events (run_order registry cap ns conns order ctx))) \<le>
     length (complete_events_for j (events ctx)) + count_list order j"
proof (induction order arbitrary: ctx)
  case Nil
  show ?case by simp
next
  case (Cons nodeId order)
  show ?case
  proof (cases "find (\<lambda>n. n_id n = nodeId) ns")
    case None
    with Cons.IH [of ctx] show ?thesis by simp
  next
    case (Some node)
    obtain r ctx' where e: "executeNode registry cap node conns ctx = (r, ctx')"
      by (cases "executeNode registry cap node conns ctx")
    have c: "complete_events_for j (events ctx') = complete_events_for j (events ctx)"
      using executeNode_complete [of j registry cap node conns ctx] by (simp add: e)
    show ?thesis
    proof (cases r)
      case (Inl error)
      let ?next = "emit (NodeError nodeId (error_message error msg_run_failed)) ctx'"
      have step: "run_order registry cap ns conns (nodeId # order) ctx =
                    run_order registry cap ns conns order ?next"
        by (simp add: Some e Inl)
      have n: "length (complete_events_for j (events ?next)) =
                 length (complete_events_for j (events ctx))"
        by (simp add: complete_events_for_snoc c)
      have cnt: "count_list order j \<le> count_list (nodeId # order) j" by simp
      from Cons.IH [of ?next] show ?thesis unfolding step n using cnt by linarith
    next
      case (Inr outputs)
      let ?next = "emit (NodeComplete nodeId outputs)
                     (ctx'\<lparr>nodeOutputs := AList.update nodeId outputs (nodeOutputs ctx')\<rparr>)"
      have step: "run_order registry cap ns conns (nodeId # order) ctx =
                    run_order registry cap ns conns order ?next"
        by (simp add: Some e Inr)
      have n: "length (complete_events_for j (events ?next)) + count_list order j \<le>
              length (complete_events_for j (events ctx)) + count_list (nodeId # order) j"
        by (simp add: complete_events_for_snoc c)
      from Cons.IH [of ?next] show ?thesis unfolding step using n by linarith
    qed
  qed
qed

lemma fold_progress:
  "fold (\<lambda>(p, m). emit (Progress i p m)) ps ctx =
     ctx\<lparr>events := events ctx @ map (\<lambda>(p, m). Progress i p m) ps\<rparr>"
  by (induction ps arbitrary: ctx) (auto simp: emit_def)

lemma getNodeInputs_outputs:
  assumes "nodeOutputs ctx = nodeOutputs ctx'"
  shows "getNodeInputs node conns ctx = getNodeInputs node conns ctx'"
  unfolding getNodeInputs_def resolve_input_def assms ..

lemma executeNode_unfold:
  "executeNode registry cap node conns ctx =
     (case getNodeDefinition registry (n_type node) of
        None \<Rightarrow> (Inl (JsError (msg_unknown_type @ n_type node)), ctx)
      | Some definition \<Rightarrow>
          (snd (cap node (getNodeInputs node conns ctx)),
           ctx\<lparr>events := events ctx @ node_events cap node (getNodeInputs node conns ctx)\<rparr>))"
  by (simp add: executeNode_def Let_def fold_progress emit_def node_events_def
        split: option.splits prod.splits sum.splits)

lemma events_for_node_events:
  "events_for j (node_events cap node inputs) =
     (if j = n_id node then node_events cap node inputs else [])"
  by (auto simp: node_events_def events_for_def event_node_def filter_map comp_def case_prod_beta
        split: sum.splits)

lemma executeNode_events:
  fixes ctx :: ExecutionContext
  defines "ctx0 \<equiv> \<lparr>nodeOutputs = nodeOutputs ctx, events = []\<rparr>"
  shows "fst (executeNode registry cap node conns ctx) = fst (executeNode registry cap node conns ctx0)"
    and "events (snd (executeNode registry cap node conns ctx)) =
           events ctx @ events (snd (executeNode registry cap node conns ctx0))"
    and "events_for j (events (snd (executeNode registry cap node conns ctx0))) =
           (if j = n_id node then events (snd (executeNode registry cap node conns ctx0)) else [])"
proof -
  have i: "getNodeInputs node conns ctx0 = getNodeInputs node conns ctx"
    by (rule getNodeInputs_outputs) (simp add: ctx0_def)
  have e: "events ctx0 = []" by (simp add: ctx0_def)
  show "fst (executeNode registry cap node conns ctx) = fst (executeNode registry cap node conns ctx0)"
    by (simp add: executeNode_unfold i split: option.splits)
  show "events (snd (executeNode registry cap node conns ctx)) =
           events ctx @ events (snd (executeNode registry cap node conns ctx0))"
    by (simp add: executeNode_unfold i e split: option.splits)
  show "events_for j (events (snd (executeNode registry cap node conns ctx0))) =
           (if j = n_id node then events (snd (executeNode registry cap node conns ctx0)) else [])"
    by (simp add: executeNode_unfold i e events_for_node_events split: option.splits)
       (simp add: events_for_def)
qed

lemma events_for_append [simp]: "events_for j (xs @ ys) = events_for j xs @ events_for j ys"
  by (simp add: events_for_def)

lemma run_order_events_for:
  assumes "distinct order"
  shows "\<exists>outs. events_for j (events (run_order registry cap ns conns order ctx)) =
     events_for j (events ctx) @
     (case find (\<lambda>n. n_id n = j) ns of
        None \<Rightarrow> []
      | Some node \<Rightarrow>
          if j \<in> set order
          then (case executeNode registry cap node conns \<lparr>nodeOutputs = outs, events = []\<rparr> of
                  (Inr outputs, ctx') \<Rightarrow> events ctx' @ [NodeComplete j outputs]
                | (Inl error, ctx') \<Rightarrow> events ctx' @ [NodeError j (error_message error msg_run_failed)])
          else [])"
    (is "\<exists>outs. ?P order ctx outs")
  using assms
proof (induction order arbitrary: ctx)
  case Nil
  show ?case by (simp split: option.splits)
next
  case (Cons i order)
  from Cons.prems have fresh: "i \<notin> set order" and d: "distinct order" by simp_all
  show ?case
  proof (cases "find (\<lambda>n. n_id n = i) ns")
    case None
    have step: "run_order registry cap ns conns (i # order) ctx =
                  run_order registry cap ns conns order ctx"
      by (simp add: None)
    from Cons.IH [OF d, of ctx] obtain outs where ih: "?P order ctx outs" ..
    have "?P (i # order) ctx outs"
    proof (cases "j = i")
      case True
      with ih None show ?thesis unfolding step by simp
    next
      case False
      with ih show ?thesis unfolding step by (simp split: option.splits)
    qed
    then show ?thesis ..
  next
    case (Some node)
    let ?ctx0 = "\<lparr>nodeOutputs = nodeOutputs ctx, events = []\<rparr>"
    have id: "n_id node = i" using find_node_id [OF Some] by simp
    obtain r ctx' where e: "executeNode registry cap node conns ctx = (r, ctx')"
      by (cases "executeNode registry cap node conns ctx")
    obtain r0 ctx0' where e0: "executeNode registry cap node conns ?ctx0 = (r0, ctx0')"
      by (cases "executeNode registry cap node conns ?ctx0")
    have r: "r0 = r"
      using executeNode_events(1) [of registry cap node conns ctx] by (simp add: e e0)
    have ev: "events ctx' = events ctx @ events ctx0'"
      using executeNode_events(2) [of registry cap node conns ctx] by (simp add: e e0)
    have own: "events_for j (events ctx0') = (if j = i then events ctx0' else [])"
      using executeNode_events(3) [of j registry cap node conns ctx] by (simp add: e0 id)
    define report where "report =
      (case r of Inr outputs \<Rightarrow> NodeComplete i outputs
               | Inl error \<Rightarrow> NodeError i (error_message error msg_run_failed))"
    define nxt where "nxt =
      (case r of Inr outputs \<Rightarrow> emit (NodeComplete i outputs)
                   (ctx'\<lparr>nodeOutputs := AList.update i outputs (nodeOutputs ctx')\<rparr>)
               | Inl error \<Rightarrow> emit (NodeError i (error_message error msg_run_failed)) ctx')"
    have step: "run_order registry cap ns conns (i # order) ctx =
                  run_order registry cap ns conns order nxt"
      by (simp add: Some e nxt_def split: sum.splits)
    have nev: "events nxt = events ctx @ events ctx0' @ [report]"
      by (simp add: nxt_def report_def ev split: sum.splits)
    have rep: "events_for j [report] = (if j = i then [report] else [])"
      by (simp add: report_def events_for_def event_node_def split: sum.splits)
    have seg: "(case executeNode registry cap node conns ?ctx0 of
                  (Inr outputs, ctx') \<Rightarrow> events ctx' @ [NodeComplete i outputs]
                | (Inl error, ctx') \<Rightarrow> events ctx' @ [NodeError i (error_message error msg_run_failed)]) =
               events ctx0' @ [report]"
      by (simp add: e0 r report_def split: sum.splits)
    from Cons.IH [OF d, of nxt] obtain outs where ih: "?P order nxt outs" ..
    show ?thesis
    proof (cases "j = i")
      case True
      have own_i: "events_for i (events ctx0') = events ctx0'"
        and rep_i: "events_for i [report] = [report]"
        using own rep True by simp_all
      have "?P (i # order) ctx (nodeOutputs ctx)"
        using ih fresh unfolding step True
        by (simp add: Some seg nev own_i rep_i)
      then show ?thesis ..
    next
      case False
      have "?P (i # order) ctx outs"
        using ih unfolding step
        by (simp add: False nev own rep split: option.splits)
      then show ?thesis ..
    qed
  qed
qed

lemma distinct_count_list: "distinct xs \<Longrightarrow> count_list xs x \<le> 1"
  by (induction xs) (auto simp: count_list_0_iff)

text \<open>
  Claim C10, amended. The returned order has no duplicate ids, and every id in it is the id
  of a node of the list or the target of a connection. When every connection's target is a
  node of the list, every id in the order is the id of a node. \<open>executeWorkflow\<close> looks
  each id of the order up and skips the ids that are not nodes, so it runs a node at most
  once in a run, whether the node fails or not: the callbacks made for a node id are those
  of one call of \<open>executeNode\<close>, for the first node with that id and with the output map
  in some state, followed by the one completion or error report of the loop, or there are
  none. In particular the completion callback is called at most once for a node id, and the
  output map has one entry at most for it.
\<close>

theorem getExecutionOrder_distinct_ids:
  "distinct (getExecutionOrder ns conns) \<and>
   set (getExecutionOrder ns conns) \<subseteq> n_id ` set ns \<union> targetNodeId ` set conns \<and>
   (targetNodeId ` set conns \<subseteq> n_id ` set ns \<longrightarrow>
      set (getExecutionOrder ns conns) \<subseteq> n_id ` set ns) \<and>
   (\<exists>outs. events_for nodeId (events (executeWorkflow registry cap ns conns)) =
      (case find (\<lambda>n. n_id n = nodeId) ns of
         None \<Rightarrow> []
       | Some node \<Rightarrow>
           if nodeId \<in> set (getExecutionOrder ns conns)
           then (case executeNode registry cap node conns \<lparr>nodeOutputs = outs, events = []\<rparr> of
                   (Inr outputs, ctx') \<Rightarrow> events ctx' @ [NodeComplete nodeId outputs]
                 | (Inl error, ctx') \<Rightarrow>
                     events ctx' @ [NodeError nodeId (error_message error msg_run_failed)])
           else [])) \<and>
   length (complete_events_for nodeId (events (executeWorkflow registry cap ns conns))) \<le> 1 \<and>
   distinct (map fst (nodeOutputs (executeWorkflow registry cap ns conns)))"
proof -
  have "\<exists>outs. events_for nodeId (events (executeWorkflow registry cap ns conns)) =
      (case find (\<lambda>n. n_id n = nodeId) ns of
         None \<Rightarrow> []
       | Some node \<Rightarrow>
           if nodeId \<in> set (getExecutionOrder ns conns)
           then (case executeNode registry cap node conns \<lparr>nodeOutputs = outs, events = []\<rparr> of
                   (Inr outputs, ctx') \<Rightarrow> events ctx' @ [NodeComplete nodeId outputs]
                 | (Inl error, ctx') \<Rightarrow>
                     events ctx' @ [NodeError nodeId (error_message error msg_run_failed)])
           else [])"
    using run_order_events_for [OF getExecutionOrder_distinct,
        where j = nodeId and registry = registry and cap = cap and ns = ns and conns = conns
          and ctx = "\<lparr>nodeOutputs = [], events = []\<rparr>"]
    by (simp add: executeWorkflow_def events_for_def)
  moreover have "length (complete_events_for nodeId (events (executeWorkflow registry cap ns conns))) \<le> 1"
    unfolding executeWorkflow_def
    using run_order_complete [of nodeId registry cap ns conns "getExecutionOrder ns conns"
        "\<lparr>nodeOutputs = [], events = []\<rparr>"]
      distinct_count_list [OF getExecutionOrder_distinct, of ns conns nodeId]
    by (simp add: complete_events_for_def)
  moreover have "distinct (map fst (nodeOutputs (run_order registry cap ns conns order ctx)))"
    if "distinct (map fst (nodeOutputs ctx))" for order ctx
    using that
  proof (induction order arbitrary: ctx)
    case Nil
    then show ?case by simp
  next
    case (Cons i order)
    show ?case
    proof (cases "find (\<lambda>n. n_id n = i) ns")
      case None
      with Cons show ?thesis by simp
    next
      case (Some node)
      obtain r ctx' where e: "executeNode registry cap node conns ctx = (r, ctx')"
        by (cases "executeNode registry cap node conns ctx")
      have "nodeOutputs ctx' = nodeOutputs ctx"
        using executeNode_nodeOutputs [of registry cap node conns ctx] by (simp add: e)
      with Cons.prems have d: "distinct (map fst (nodeOutputs ctx'))" by simp
      show ?thesis
      proof (cases r)
        case (Inl error)
        with Cons.IH [of "emit (NodeError i (error_message error msg_run_failed)) ctx'"] d
        show ?thesis by (simp add: Some e)
      next
        case (Inr outputs)
        with Cons.IH [of "emit (NodeComplete i outputs)
                     (ctx'\<lparr>nodeOutputs := AList.update i outputs (nodeOutputs ctx')\<rparr>)"] d
        show ?thesis by (simp add: Some e distinct_update)
      qed
    qed
  qed
  then have "distinct (map fst (nodeOutputs (executeWorkflow registry cap ns conns)))"
    by (simp add: executeWorkflow_def)
  ultimately show ?thesis
    using getExecutionOrder_distinct [of ns conns] getExecutionOrder_member [of _ ns conns]
    by blast
qed

text \<open>
  On the chain \<open>a \<rightarrow> b \<rightarrow> c\<close> whose node \<open>b\<close> fails, every id of the order is a node, and the
  callbacks for \<open>b\<close> are those of one call of \<open>executeNode\<close> and the report of the loop.
\<close>

theorem getExecutionOrder_distinct_ids_witness:
  "targetNodeId ` set chain_conns \<subseteq> n_id ` set chain_nodes \<and>
   distinct (getExecutionOrder chain_nodes chain_conns) \<and>
   set (getExecutionOrder chain_nodes chain_conns) \<subseteq> n_id ` set chain_nodes \<and>
   events_for ''b'' (events (executeWorkflow chain_registry chain_capability chain_nodes chain_conns)) =
     [Progress ''b'' 10 msg_preparing, Progress ''b'' 30 msg_calling_llm,
      NodeError ''b'' ''network down'', NodeError ''b'' ''network down'']"
proof -
  have "targetNodeId ` set chain_conns \<subseteq> n_id ` set chain_nodes"
    by (simp add: chain_conns_def chain_nodes_def ex_conn_def ex_node_def)
  moreover have "events_for ''b''
      (events (executeWorkflow chain_registry chain_capability chain_nodes chain_conns)) =
     [Progress ''b'' 10 msg_preparing, Progress ''b'' 30 msg_calling_llm,
      NodeError ''b'' ''network down'', NodeError ''b'' ''network down'']"
    by code_simp
  ultimately show ?thesis
    using getExecutionOrder_distinct_ids [of chain_nodes chain_conns] by blast
qed

theorem getExecutionOrder_ids_counterexample:
  "getExecutionOrder (nodes dangling_store) (connections dangling_store) = [''a'', ''x''] \<and>
   ''x'' \<notin> n_id ` set (nodes dangling_store)"
proof -
  have "getExecutionOrder (nodes dangling_store) (connections dangling_store) = [''a'', ''x'']"
    by code_simp
  then show ?thesis by (simp add: dangling_store_def ex_node_def)
qed

section \<open>Validation: properties\<close>

lemma no_isolated_in_input_warnings:
  "filter is_node_unconnected (concat (map (input_warnings registry conns) ns)) = []"
  by (induction ns)
     (auto simp: input_warnings_def is_node_unconnected_def filter_empty_conv split: option.splits)

lemma filter_isolated_map:
  "filter is_node_unconnected (map (\<lambda>node. Msg_node_unconnected (n_type node)) xs) =
     map (\<lambda>node. Msg_node_unconnected (n_type node)) xs"
  by (induction xs) (auto simp: is_node_unconnected_def)

lemma validateWorkflow_isolated:
  "filter is_node_unconnected (warnings (validateWorkflow registry ns conns)) =
     map (\<lambda>node. Msg_node_unconnected (n_type node))
       (filter (\<lambda>node. n_id node \<notin> sourceNodeId ` set conns \<union> targetNodeId ` set conns \<and>
                        1 < length ns) ns)"
  by (simp add: validateWorkflow_def Let_def no_isolated_in_input_warnings filter_isolated_map
        is_node_unconnected_def)

lemma validateWorkflow_errors:
  "errors (validateWorkflow registry ns conns) = cycle_errors conns ns ({}, {})"
  by (cases ns) (simp_all add: validateWorkflow_def Let_def)

lemma two_joined_no_cycle:
  assumes "n_id a \<noteq> n_id b" "n_id c \<noteq> n_id a" "n_id c \<noteq> n_id b"
    and "sourceNodeId conn = n_id a" "targetNodeId conn = n_id b"
    and "ns \<in> {[a, b, c], [a, c, b], [b, a, c], [b, c, a], [c, a, b], [c, b, a]}"
  shows "cycle_errors [conn] ns ({}, {}) = []"
  using assms
  by (auto simp: hasCycle_def Let_def)

text \<open>
  Claim C9. For three nodes with distinct ids in any order, two of them joined by the one
  connection of the workflow, \<open>validateWorkflow\<close> reports no error, the result is valid, and
  exactly one warning is an unconnected-node warning: the one naming the type of the third
  node. For a workflow of at most one node no unconnected-node warning is emitted.
\<close>

theorem validateWorkflow_isolated_third_node:
  "(n_id a \<noteq> n_id b \<and> n_id c \<noteq> n_id a \<and> n_id c \<noteq> n_id b \<and>
    sourceNodeId conn = n_id a \<and> targetNodeId conn = n_id b \<and>
    ns \<in> {[a, b, c], [a, c, b], [b, a, c], [b, c, a], [c, a, b], [c, b, a]} \<longrightarrow>
      errors (validateWorkflow registry ns [conn]) = [] \<and>
      valid (validateWorkflow registry ns [conn]) \<and>
      filter is_node_unconnected (warnings (validateWorkflow registry ns [conn])) =
        [Msg_node_unconnected (n_type c)]) \<and>
   (length ns' \<le> 1 \<longrightarrow>
      filter is_node_unconnected (warnings (validateWorkflow registry ns' conns)) = [])"
proof (intro conjI impI)
  assume h: "n_id a \<noteq> n_id b \<and> n_id c \<noteq> n_id a \<and> n_id c \<noteq> n_id b \<and>
    sourceNodeId conn = n_id a \<and> targetNodeId conn = n_id b \<and>
    ns \<in> {[a, b, c], [a, c, b], [b, a, c], [b, c, a], [c, a, b], [c, b, a]}"
  then have e: "cycle_errors [conn] ns ({}, {}) = []"
    using two_joined_no_cycle [of a b c conn ns] by blast
  then show "errors (validateWorkflow registry ns [conn]) = []"
    by (simp add: validateWorkflow_errors)
  from h e show "valid (validateWorkflow registry ns [conn])"
    by (auto simp: validateWorkflow_def Let_def)
  from h show "filter is_node_unconnected (warnings (validateWorkflow registry ns [conn])) =
        [Msg_node_unconnected (n_type c)]"
    unfolding validateWorkflow_isolated by auto
next
  assume "length ns' \<le> 1"
  then show "filter is_node_unconnected (warnings (validateWorkflow registry ns' conns)) = []"
    unfolding validateWorkflow_isolated by simp
qed

theorem validateWorkflow_isolated_third_node_witness:
  "errors (validateWorkflow chain_registry (nodes occupied_store) (connections occupied_store)) = [] \<and>
   valid (validateWorkflow chain_registry (nodes occupied_store) (connections occupied_store)) \<and>
   filter is_node_unconnected
     (warnings (validateWorkflow chain_registry (nodes occupied_store) (connections occupied_store))) =
     [Msg_node_unconnected ''text-input''] \<and>
   filter is_node_unconnected
     (warnings (validateWorkflow chain_registry [ex_node ''s2'' ''text-input'' [] []] [])) = []"
proof -
  let ?a = "ex_node ''s1'' ''text-input'' [] [ex_port ''output-0'' Dir_output True]"
  let ?c = "ex_node ''s2'' ''text-input'' [] [ex_port ''output-0'' Dir_output False]"
  let ?b = "ex_node ''t'' ''llm'' [ex_port ''input-0'' Dir_input True] []"
  let ?conn = "ex_conn ''c1'' ''s1'' ''output-0'' ''t'' ''input-0''"
  have n: "nodes occupied_store = [?a, ?c, ?b]" and c: "connections occupied_store = [?conn]"
    by (simp_all add: occupied_store_def)
  have h: "n_id ?a \<noteq> n_id ?b \<and> n_id ?c \<noteq> n_id ?a \<and> n_id ?c \<noteq> n_id ?b \<and>
    sourceNodeId ?conn = n_id ?a \<and> targetNodeId ?conn = n_id ?b \<and>
    [?a, ?c, ?b] \<in> {[?a, ?b, ?c], [?a, ?c, ?b], [?b, ?a, ?c], [?b, ?c, ?a], [?c, ?a, ?b], [?c, ?b, ?a]}"
    by (simp add: ex_node_def ex_conn_def)
  from validateWorkflow_isolated_third_node
    [of ?a ?b ?c ?conn "[?a, ?c, ?b]" chain_registry "[ex_node ''s2'' ''text-input'' [] []]" "[]"] h
  show ?thesis
    unfolding n c by (simp add: ex_node_def)
qed

section \<open>Format translator: properties\<close>

lemma find_index_Some_iff:
  "find_index P xs = Some i \<longleftrightarrow> i < length xs \<and> P (xs ! i) \<and> (\<forall>j < i. \<not> P (xs ! j))"
proof (induction xs arbitrary: i)
  case Nil
  show ?case by simp
next
  case (Cons x xs)
  show ?case
  proof (cases "P x")
    case True
    then show ?thesis by (cases i) auto
  next
    case False
    show ?thesis
    proof (cases i)
      case 0
      with False show ?thesis by simp
    next
      case (Suc k)
      have "(\<forall>j < Suc k. \<not> P ((x # xs) ! j)) \<longleftrightarrow> (\<forall>j < k. \<not> P (xs ! j))"
        using False by (auto simp: less_Suc_eq_0_disj)
      with Suc False Cons.IH [of k] show ?thesis by auto
    qed
  qed
qed

lemma find_index_None_iff: "find_index P xs = None \<longleftrightarrow> (\<forall>x \<in> set xs. \<not> P x)"
  by (induction xs) auto

lemma find_find_index: "find P xs = map_option (nth xs) (find_index P xs)"
  by (induction xs) (auto simp: option.map_comp comp_def)

lemma find_index_distinct:
  assumes "distinct (map f xs)" "i < length xs"
  shows "find_index (\<lambda>x. f x = f (xs ! i)) xs = Some i"
proof -
  have "\<not> f (xs ! j) = f (xs ! i)" if "j < i" for j
  proof -
    from that assms(2) have lj: "j < length (map f xs)" and li: "i < length (map f xs)"
      by simp_all
    have "(map f xs ! j = map f xs ! i) = (j = i)"
      by (rule nth_eq_iff_index_eq [OF assms(1) lj li])
    moreover have "map f xs ! j = f (xs ! j)" "map f xs ! i = f (xs ! i)"
      using that assms(2) by simp_all
    ultimately show ?thesis using that by simp
  qed
  with assms(2) show ?thesis by (simp add: find_index_Some_iff)
qed

lemma digits_value_show_nat: "digits_value (show_nat n) = n"
proof (induction n rule: show_nat.induct)
  case (1 n)
  show ?case
  proof (cases "n < 10")
    case True
    then show ?thesis
      by (subst show_nat.simps) (simp add: digits_value_def)
  next
    case False
    with 1 have "digits_value (show_nat (n div 10)) = n div 10" by simp
    moreover have "(of_char (char_of (48 + n mod 10 :: nat)) :: nat) = 48 + n mod 10"
      by simp
    ultimately show ?thesis
      using False
      by (subst show_nat.simps) (simp add: digits_value_def)
  qed
qed

lemma show_nat_inj: "show_nat a = show_nat b \<longleftrightarrow> a = b"
proof
  assume "show_nat a = show_nat b"
  then have "digits_value (show_nat a) = digits_value (show_nat b)" by simp
  then show "a = b" by (simp only: digits_value_show_nat)
qed simp

lemma show_int_nat: "show_int (int k) = show_nat k"
  by (simp add: show_int_def)

lemma export_node_step_triple:
  "export_node_step node (cns, m, c) =
     (cns @ [export_node c node], AList.update (n_id node) c m, c + 1)"
  by (simp add: export_node_step_def)

lemma fold_export_nodes_length:
  "length (fst (fold export_node_step ns (cns, m, c))) = length cns + length ns"
  by (induction ns arbitrary: cns m c) (simp_all add: export_node_step_triple)

lemma fold_export_nodes_prefix:
  "i < length cns \<Longrightarrow> fst (fold export_node_step ns (cns, m, c)) ! i = cns ! i"
  by (induction ns arbitrary: cns m c) (simp_all add: export_node_step_triple nth_append)

lemma fold_export_nodes_nth:
  "i < length ns \<Longrightarrow>
     fst (fold export_node_step ns (cns, m, c)) ! (length cns + i) = export_node (c + int i) (ns ! i)"
proof (induction ns arbitrary: cns m c i)
  case Nil
  then show ?case by simp
next
  case (Cons n ns)
  show ?case
  proof (cases i)
    case 0
    then show ?thesis
      using fold_export_nodes_prefix [of "length cns" "cns @ [export_node c n]" ns]
      by (simp add: export_node_step_triple)
  next
    case (Suc k)
    with Cons.prems have "k < length ns" by simp
    from Cons.IH [OF this, of "cns @ [export_node c n]" "AList.update (n_id n) c m" "c + 1"]
    show ?thesis using Suc by (simp add: export_node_step_triple add.assoc)
  qed
qed

lemma fold_export_nodes_map:
  assumes "distinct (map n_id ns)"
  shows "map_of (fst (snd (fold export_node_step ns (cns, m, c)))) x =
           (case find_index (\<lambda>n. n_id n = x) ns of
              Some i \<Rightarrow> Some (c + int i) | None \<Rightarrow> map_of m x)"
  using assms
proof (induction ns arbitrary: cns m c)
  case Nil
  show ?case by simp
next
  case (Cons n ns)
  then have d: "distinct (map n_id ns)" and new: "n_id n \<notin> n_id ` set ns" by simp_all
  show ?case
  proof (cases "n_id n = x")
    case True
    have "find_index (\<lambda>n. n_id n = x) ns = None"
    proof -
      have "n_id y \<noteq> x" if "y \<in> set ns" for y using that new True by blast
      then show ?thesis by (simp add: find_index_None_iff)
    qed
    with True Cons.IH [OF d] show ?thesis
      by (simp add: export_node_step_triple update_conv')
  next
    case False
    with Cons.IH [OF d] show ?thesis
      by (simp add: export_node_step_triple update_conv' add.assoc split: option.splits)
  qed
qed

lemma node_shape_push_output_link [simp]:
  "node_shape (push_output_link slot l n) = node_shape n"
  by (simp add: push_output_link_def node_shape_def split: option.splits)

lemma node_shape_set_input_link [simp]:
  "node_shape (set_input_link slot l n) = node_shape n"
  by (simp add: set_input_link_def node_shape_def split: option.splits)

lemma map_shape_update_first:
  assumes "\<And>x. node_shape (f x) = node_shape x"
  shows "map node_shape (update_first P f xs) = map node_shape xs"
proof (cases "find_index P xs")
  case None
  then show ?thesis by (simp add: update_first_def)
next
  case (Some i)
  then have "i < length xs" by (simp add: find_index_Some_iff)
  then have "(map node_shape xs)[i := node_shape (xs ! i)] = map node_shape xs"
    by (simp add: list_update_same_conv)
  with Some show ?thesis by (simp add: update_first_def map_update assms)
qed

lemma export_link_step_shape:
  "map node_shape (fst (export_link_step ns m conn st)) = map node_shape (fst st)"
  by (cases st)
     (simp add: export_link_step_def Let_def map_shape_update_first split: option.splits)

lemma fold_export_links_shape:
  "map node_shape (fst (fold (export_link_step ns m) conns st)) = map node_shape (fst st)"
  by (induction conns arbitrary: st) (simp_all add: export_link_step_shape)

lemma export_link_step_links:
  "map link_ends (fst (snd (export_link_step ns m conn st))) =
     map link_ends (fst (snd st)) @ (case export_ends ns m conn of None \<Rightarrow> [] | Some e \<Rightarrow> [e])"
  by (cases st)
     (simp add: export_link_step_def export_ends_def Let_def link_ends_def split: option.splits)

lemma fold_export_links:
  "map link_ends (fst (snd (fold (export_link_step ns m) conns st))) =
     map link_ends (fst (snd st)) @ List.map_filter (export_ends ns m) conns"
proof (induction conns arbitrary: st)
  case Nil
  show ?case by (simp add: List.map_filter_simps)
next
  case (Cons conn conns)
  show ?case
    by (simp add: Cons.IH export_link_step_links List.map_filter_simps split: option.splits)
qed

lemma export_ends_position:
  assumes "distinct (map n_id ns)"
    and "\<And>x. map_of m x =
           (case find_index (\<lambda>n. n_id n = x) ns of Some i \<Rightarrow> Some (1 + int i) | None \<Rightarrow> None)"
  shows "export_ends ns m conn = map_option encode_position (connection_position ns conn)"
  by (simp add: export_ends_def connection_position_def assms(2) find_find_index encode_position_def
        split: option.splits)

lemma map_filter_map_option:
  "List.map_filter (\<lambda>x. map_option f (g x)) xs = map f (List.map_filter g xs)"
  by (induction xs) (auto simp: List.map_filter_simps split: option.splits)

lemma node_shape_export_node:
  "node_shape (export_node c n) =
     (c, export_node_type (n_type n), length (n_inputs n), length (n_outputs n))"
  by (simp add: node_shape_def export_node_def)

lemma export_nodes_length:
  "length (cw_nodes (exportToComfyUIWorkflow ns conns)) = length ns"
proof -
  obtain cns0 m c where n: "fold export_node_step ns ([], [], 1) = (cns0, m, c)"
    by (metis prod_cases3)
  obtain cns ls c' where l: "fold (export_link_step ns m) conns (cns0, [], 1) = (cns, ls, c')"
    by (metis prod_cases3)
  have "length cns0 = length ns"
    using fold_export_nodes_length [of ns "[]" "[]" 1] by (simp add: n)
  moreover have "map node_shape cns = map node_shape cns0"
    using fold_export_links_shape [of ns m conns "(cns0, [], 1)"] by (simp add: l)
  then have "length cns = length cns0" by (rule map_eq_imp_length_eq)
  ultimately show ?thesis by (simp add: exportToComfyUIWorkflow_def n l)
qed

lemma export_nodes_shape:
  assumes "i < length ns"
  shows "node_shape (cw_nodes (exportToComfyUIWorkflow ns conns) ! i) =
           (1 + int i, export_node_type (n_type (ns ! i)),
            length (n_inputs (ns ! i)), length (n_outputs (ns ! i)))"
proof -
  obtain cns0 m c where n: "fold export_node_step ns ([], [], 1) = (cns0, m, c)"
    by (metis prod_cases3)
  obtain cns ls c' where l: "fold (export_link_step ns m) conns (cns0, [], 1) = (cns, ls, c')"
    by (metis prod_cases3)
  have len: "length cns0 = length ns"
    using fold_export_nodes_length [of ns "[]" "[]" 1] by (simp add: n)
  have "cns0 ! i = export_node (1 + int i) (ns ! i)"
    using fold_export_nodes_nth [OF assms, of "[]" "[]" 1] by (simp add: n)
  moreover have s: "map node_shape cns = map node_shape cns0"
    using fold_export_links_shape [of ns m conns "(cns0, [], 1)"] by (simp add: l)
  then have "length cns = length cns0" by (rule map_eq_imp_length_eq)
  with s assms len have "node_shape (cns ! i) = node_shape (cns0 ! i)"
    by (metis nth_map)
  ultimately show ?thesis
    by (simp add: exportToComfyUIWorkflow_def n l node_shape_export_node)
qed

lemma export_links_ends:
  assumes "distinct (map n_id ns)"
  shows "map link_ends (cw_links (exportToComfyUIWorkflow ns conns)) =
           map encode_position (List.map_filter (connection_position ns) conns)"
proof -
  obtain cns0 m c where n: "fold export_node_step ns ([], [], 1) = (cns0, m, c)"
    by (metis prod_cases3)
  obtain cns ls c' where l: "fold (export_link_step ns m) conns (cns0, [], 1) = (cns, ls, c')"
    by (metis prod_cases3)
  have m: "map_of m x =
           (case find_index (\<lambda>n. n_id n = x) ns of Some i \<Rightarrow> Some (1 + int i) | None \<Rightarrow> None)" for x
    using fold_export_nodes_map [OF assms, of "[]" "[]" 1 x]
    by (simp add: n split: option.splits)
  have "export_ends ns m = (\<lambda>conn. map_option encode_position (connection_position ns conn))"
    using export_ends_position [OF assms m] by (intro ext)
  then have "map link_ends ls = map encode_position (List.map_filter (connection_position ns) conns)"
    using fold_export_links [of ns m conns "(cns0, [], 1)"]
    by (simp add: l map_filter_map_option)
  then show ?thesis by (simp add: exportToComfyUIWorkflow_def n l)
qed

lemma import_node_step_triple:
  "import_node_step registry uuid cn (ns, m, k) =
     (ns @ [import_node registry (uuid k) cn], AList.update (cn_id cn) (uuid k) m, Suc k)"
  by (simp add: import_node_step_def)

lemma fold_import_nodes_length:
  "length (fst (fold (import_node_step registry uuid) cns (ns, m, k))) = length ns + length cns"
  by (induction cns arbitrary: ns m k) (simp_all add: import_node_step_triple)

lemma fold_import_nodes_prefix:
  "i < length ns \<Longrightarrow> fst (fold (import_node_step registry uuid) cns (ns, m, k)) ! i = ns ! i"
  by (induction cns arbitrary: ns m k) (simp_all add: import_node_step_triple nth_append)

lemma fold_import_nodes_nth:
  "i < length cns \<Longrightarrow>
     fst (fold (import_node_step registry uuid) cns (ns, m, k)) ! (length ns + i) =
       import_node registry (uuid (k + i)) (cns ! i)"
proof (induction cns arbitrary: ns m k i)
  case Nil
  then show ?case by simp
next
  case (Cons cn cns)
  show ?case
  proof (cases i)
    case 0
    then show ?thesis
      using fold_import_nodes_prefix [of "length ns" "ns @ [import_node registry (uuid k) cn]"
          registry uuid cns]
      by (simp add: import_node_step_triple)
  next
    case (Suc j)
    with Cons.prems have "j < length cns" by simp
    from Cons.IH [OF this, of "ns @ [import_node registry (uuid k) cn]"
        "AList.update (cn_id cn) (uuid k) m" "Suc k"]
    show ?thesis using Suc by (simp add: import_node_step_triple)
  qed
qed

lemma fold_import_nodes_count:
  "snd (snd (fold (import_node_step registry uuid) cns (ns, m, k))) = k + length cns"
  by (induction cns arbitrary: ns m k) (simp_all add: import_node_step_triple)

lemma fold_import_nodes_map:
  assumes "distinct (map cn_id cns)"
  shows "map_of (fst (snd (fold (import_node_step registry uuid) cns (ns, m, k)))) x =
           (case find_index (\<lambda>cn. cn_id cn = x) cns of
              Some i \<Rightarrow> Some (uuid (k + i)) | None \<Rightarrow> map_of m x)"
  using assms
proof (induction cns arbitrary: ns m k)
  case Nil
  show ?case by simp
next
  case (Cons cn cns)
  then have d: "distinct (map cn_id cns)" and new: "cn_id cn \<notin> cn_id ` set cns" by simp_all
  show ?case
  proof (cases "cn_id cn = x")
    case True
    have "find_index (\<lambda>cn. cn_id cn = x) cns = None"
    proof -
      have "cn_id y \<noteq> x" if "y \<in> set cns" for y using that new True by blast
      then show ?thesis by (simp add: find_index_None_iff)
    qed
    with True Cons.IH [OF d] show ?thesis
      by (simp add: import_node_step_triple update_conv')
  next
    case False
    with Cons.IH [OF d] show ?thesis
      by (simp add: import_node_step_triple update_conv' split: option.splits)
  qed
qed

lemma import_link_step_resolved:
  assumes "map_of m s = Some a" "map_of m t = Some b" "a \<noteq> []" "b \<noteq> []"
  shows "import_link_step uuid m (linkId, s, ss, t, ts, ty) (cs, k) =
           (cs @ [\<lparr> c_id = uuid k, sourceNodeId = a, sourcePortId = ''output-'' @ show_int ss,
                     targetNodeId = b, targetPortId = ''input-'' @ show_int ts,
                     c_type = Some (import_port_type ty) \<rparr>], Suc k)"
  using assms by (simp add: import_link_step_def)

lemma fold_import_links:
  assumes "map link_ends ls = map encode_position es"
    and "\<And>i k j l. (i, k, j, l) \<in> set es \<Longrightarrow>
           map_of m (1 + int i) = Some (uuid i) \<and> map_of m (1 + int j) = Some (uuid j)"
    and "\<And>k. uuid k \<noteq> []"
  shows "map conn_ends (fst (fold (import_link_step uuid m) ls (cs, c))) =
           map conn_ends cs @
           map (\<lambda>(i, k, j, l). (uuid i, ''output-'' @ show_nat k, uuid j, ''input-'' @ show_nat l)) es"
  using assms(1,2)
proof (induction ls arbitrary: es cs c)
  case Nil
  then show ?case by simp
next
  case (Cons link ls)
  from Cons.prems(1) obtain e es' where es: "es = e # es'"
    and e: "link_ends link = encode_position e"
    and rest: "map link_ends ls = map encode_position es'"
    by (cases es) auto
  obtain i k j l where ijkl: "e = (i, k, j, l)" by (metis prod_cases4)
  obtain linkId s ss t ts ty where link: "link = (linkId, s, ss, t, ts, ty)"
    by (metis prod_cases6)
  from e have ends: "s = 1 + int i" "ss = int k" "t = 1 + int j" "ts = int l"
    by (simp_all add: link ijkl link_ends_def encode_position_def)
  from Cons.prems(2) [of i k j l] have look: "map_of m s = Some (uuid i)" "map_of m t = Some (uuid j)"
    by (simp_all add: es ijkl ends)
  have step: "import_link_step uuid m link (cs, c) =
      (cs @ [\<lparr> c_id = uuid c, sourceNodeId = uuid i, sourcePortId = ''output-'' @ show_int ss,
                targetNodeId = uuid j, targetPortId = ''input-'' @ show_int ts,
                c_type = Some (import_port_type ty) \<rparr>], Suc c)"
    unfolding link by (rule import_link_step_resolved [OF look assms(3) assms(3)])
  have "map_of m (1 + int i) = Some (uuid i) \<and> map_of m (1 + int j) = Some (uuid j)"
    if "(i, k, j, l) \<in> set es'" for i k j l
    using Cons.prems(2) [of i k j l] that by (simp add: es)
  from Cons.IH [OF rest this]
  show ?case
    by (simp add: step es ijkl conn_ends_def ends show_int_nat)
qed

lemma connection_position_range:
  assumes "connection_position ns c = Some (i, k, j, l)"
  shows "i < length ns \<and> j < length ns \<and>
         k < length (n_outputs (ns ! i)) \<and> l < length (n_inputs (ns ! j))"
  using assms
  by (auto simp: connection_position_def find_index_Some_iff split: option.splits)

lemma map_filter_member:
  "e \<in> set (List.map_filter f xs) \<Longrightarrow> \<exists>x \<in> set xs. f x = Some e"
  by (induction xs) (auto simp: List.map_filter_simps split: option.splits)

lemma import_node_fields:
  "n_id (import_node registry u cn) = u"
  "n_type (import_node registry u cn) = import_node_type (cn_type cn)"
  "length (n_inputs (import_node registry u cn)) = fst (snd (snd (node_shape cn)))"
  "length (n_outputs (import_node registry u cn)) = snd (snd (snd (node_shape cn)))"
  "k < length (n_inputs (import_node registry u cn)) \<Longrightarrow>
     p_id (n_inputs (import_node registry u cn) ! k) = ''input-'' @ show_nat k"
  "k < length (n_outputs (import_node registry u cn)) \<Longrightarrow>
     p_id (n_outputs (import_node registry u cn) ! k) = ''output-'' @ show_nat k"
  by (simp_all add: import_node_def Let_def node_shape_def nth_enumerate_eq import_input_def
        import_output_def)

lemma find_index_unique:
  assumes "i < length xs" "P (xs ! i)" "\<And>j. j < length xs \<Longrightarrow> P (xs ! j) \<Longrightarrow> j = i"
  shows "find_index P xs = Some i"
proof -
  have "\<not> P (xs ! j)" if "j < i" for j
  proof
    assume "P (xs ! j)"
    moreover from that assms(1) have "j < length xs" by simp
    ultimately have "j = i" by (rule assms(3) [rotated])
    with that show False by simp
  qed
  with assms(1,2) show ?thesis by (simp add: find_index_Some_iff)
qed

lemma import_position:
  assumes inj: "inj uuid"
    and ids: "\<And>i. i < length ns \<Longrightarrow> n_id (ns ! i) = uuid i"
    and outs: "\<And>i k. i < length ns \<Longrightarrow> k < length (n_outputs (ns ! i)) \<Longrightarrow>
                 p_id (n_outputs (ns ! i) ! k) = ''output-'' @ show_nat k"
    and ins: "\<And>i k. i < length ns \<Longrightarrow> k < length (n_inputs (ns ! i)) \<Longrightarrow>
                 p_id (n_inputs (ns ! i) ! k) = ''input-'' @ show_nat k"
    and c: "conn_ends c = (uuid i, ''output-'' @ show_nat k, uuid j, ''input-'' @ show_nat l)"
    and range: "i < length ns" "j < length ns"
      "k < length (n_outputs (ns ! i))" "l < length (n_inputs (ns ! j))"
  shows "connection_position ns c = Some (i, k, j, l)"
proof -
  define sp where "sp = ''output-'' @ show_nat k"
  define tp where "tp = ''input-'' @ show_nat l"
  from c have f: "sourceNodeId c = uuid i" "sourcePortId c = sp"
    "targetNodeId c = uuid j" "targetPortId c = tp"
    by (simp_all add: conn_ends_def sp_def tp_def)
  have node: "find_index (\<lambda>n. n_id n = uuid a) ns = Some a" if "a < length ns" for a
  proof (rule find_index_unique [OF that])
    show "n_id (ns ! a) = uuid a" using ids that by simp
    show "b = a" if "b < length ns" "n_id (ns ! b) = uuid a" for b
      using ids [OF that(1)] that(2) inj by (simp add: inj_eq)
  qed
  have out: "find_index (\<lambda>p. p_id p = sp) (n_outputs (ns ! i)) = Some k"
  proof (rule find_index_unique [OF range(3)])
    show "p_id (n_outputs (ns ! i) ! k) = sp"
      using outs range by (simp add: sp_def)
    show "b = k" if "b < length (n_outputs (ns ! i))" "p_id (n_outputs (ns ! i) ! b) = sp" for b
      using outs [OF range(1) that(1)] that(2) by (simp add: show_nat_inj sp_def)
  qed
  have inp: "find_index (\<lambda>p. p_id p = tp) (n_inputs (ns ! j)) = Some l"
  proof (rule find_index_unique [OF range(4)])
    show "p_id (n_inputs (ns ! j) ! l) = tp"
      using ins range by (simp add: tp_def)
    show "b = l" if "b < length (n_inputs (ns ! j))" "p_id (n_inputs (ns ! j) ! b) = tp" for b
      using ins [OF range(2) that(1)] that(2) by (simp add: show_nat_inj tp_def)
  qed
  show ?thesis
    by (simp add: connection_position_def f node range out inp)
qed

lemma roundtrip_node_type_table:
  "list_all (\<lambda>t. import_node_type (export_node_type t) = t) (map snd comfyNodeTypeMap)"
  by code_simp

lemma roundtrip_node_type:
  "t \<in> snd ` set comfyNodeTypeMap \<Longrightarrow> import_node_type (export_node_type t) = t"
  using roundtrip_node_type_table unfolding list_all_iff by auto

text \<open>
  Claim C3, amended. Let every node kind of the graph have an entry in the node-kind
  dictionary, let the node ids be distinct, and let \<open>uuidv4\<close> give distinct non-empty ids.
  Then importing the exported graph gives the same node kinds in the same order, and its
  connections are, in order, the connections of the graph whose nodes and ports are found,
  each at the same node and port positions. When all connections of the graph are found
  the positions of the connections are the same list. Literal data is not covered.
\<close>

theorem import_export_roundtrip:
  assumes kinds: "\<forall>n \<in> set ns. n_type n \<in> snd ` set comfyNodeTypeMap"
    and inj: "inj uuid" and nonempty: "\<forall>k. uuid k \<noteq> []"
    and dist: "distinct (map n_id ns)"
  shows "map n_type (fst (importComfyUIWorkflow registry uuid (exportToComfyUIWorkflow ns conns))) =
           map n_type ns \<and>
         map (connection_position
                (fst (importComfyUIWorkflow registry uuid (exportToComfyUIWorkflow ns conns))))
             (snd (importComfyUIWorkflow registry uuid (exportToComfyUIWorkflow ns conns))) =
           map Some (List.map_filter (connection_position ns) conns) \<and>
         ((\<forall>c \<in> set conns. connection_position ns c \<noteq> None) \<longrightarrow>
            map (connection_position
                   (fst (importComfyUIWorkflow registry uuid (exportToComfyUIWorkflow ns conns))))
                (snd (importComfyUIWorkflow registry uuid (exportToComfyUIWorkflow ns conns))) =
              map (connection_position ns) conns)"
proof -
  let ?w = "exportToComfyUIWorkflow ns conns"
  let ?cns = "cw_nodes ?w"
  let ?es = "List.map_filter (connection_position ns) conns"
  obtain ns' M k where imp: "fold (import_node_step registry uuid) ?cns ([], [], 0) = (ns', M, k)"
    by (metis prod_cases3)
  define conns' where "conns' = fst (fold (import_link_step uuid M) (cw_links ?w) ([], k))"
  have result: "importComfyUIWorkflow registry uuid ?w = (ns', conns')"
    by (simp add: importComfyUIWorkflow_def imp conns'_def)
  have len_c: "length ?cns = length ns" by (rule export_nodes_length)
  have len: "length ns' = length ns"
    using fold_import_nodes_length [of registry uuid ?cns "[]" "[]" 0] by (simp add: imp len_c)
  have nth: "ns' ! i = import_node registry (uuid i) (?cns ! i)" if "i < length ns" for i
    using fold_import_nodes_nth [of i ?cns registry uuid "[]" "[]" 0] that by (simp add: imp len_c)
  have shape: "node_shape (?cns ! i) =
      (1 + int i, export_node_type (n_type (ns ! i)),
       length (n_inputs (ns ! i)), length (n_outputs (ns ! i)))" if "i < length ns" for i
    using that by (rule export_nodes_shape)
  have cid: "cn_id (?cns ! i) = 1 + int i" and ctype: "cn_type (?cns ! i) = export_node_type (n_type (ns ! i))"
    if "i < length ns" for i
    using shape [OF that] by (simp_all add: node_shape_def)
  have types: "map n_type ns' = map n_type ns"
  proof (rule nth_equalityI)
    show "length (map n_type ns') = length (map n_type ns)" by (simp add: len)
    fix i assume "i < length (map n_type ns')"
    then have i: "i < length ns" by (simp add: len)
    then have "n_type (ns ! i) \<in> snd ` set comfyNodeTypeMap" using kinds by simp
    then show "map n_type ns' ! i = map n_type ns ! i"
      using i by (simp add: len nth import_node_fields ctype roundtrip_node_type)
  qed
  have cdist: "distinct (map cn_id ?cns)"
    unfolding distinct_conv_nth
  proof (intro allI impI)
    fix i j assume "i < length (map cn_id ?cns)" "j < length (map cn_id ?cns)" "i \<noteq> j"
    then show "map cn_id ?cns ! i \<noteq> map cn_id ?cns ! j"
      by (simp add: len_c cid)
  qed
  have look: "map_of M (1 + int i) = Some (uuid i)" if "i < length ns" for i
  proof -
    from that have "i < length ?cns" by (simp add: len_c)
    from find_index_distinct [OF cdist this]
    have "find_index (\<lambda>cn. cn_id cn = 1 + int i) ?cns = Some i" by (simp add: cid that)
    then show ?thesis
      using fold_import_nodes_map [OF cdist, of registry uuid "[]" "[]" 0 "1 + int i"]
      by (simp add: imp)
  qed
  have range: "i < length ns \<and> j < length ns \<and>
         a < length (n_outputs (ns ! i)) \<and> b < length (n_inputs (ns ! j))"
    if "(i, a, j, b) \<in> set ?es" for i a j b
    using map_filter_member [OF that] connection_position_range by blast
  have ends: "map conn_ends conns' =
      map (\<lambda>(i, a, j, b). (uuid i, ''output-'' @ show_nat a, uuid j, ''input-'' @ show_nat b)) ?es"
  proof -
    have "map_of M (1 + int i) = Some (uuid i) \<and> map_of M (1 + int j) = Some (uuid j)"
      if "(i, a, j, b) \<in> set ?es" for i a j b
      using range [OF that] look by simp
    from fold_import_links [OF export_links_ends [OF dist] this, where cs = "[]" and c = k] nonempty
    show ?thesis by (simp add: conns'_def)
  qed
  have ids': "n_id (ns' ! i) = uuid i" if "i < length ns'" for i
    using that by (simp add: len nth import_node_fields)
  have outs': "p_id (n_outputs (ns' ! i) ! a) = ''output-'' @ show_nat a"
    if "i < length ns'" "a < length (n_outputs (ns' ! i))" for i a
    using that by (simp add: len nth import_node_fields)
  have ins': "p_id (n_inputs (ns' ! i) ! a) = ''input-'' @ show_nat a"
    if "i < length ns'" "a < length (n_inputs (ns' ! i))" for i a
    using that by (simp add: len nth import_node_fields)
  have positions: "map (connection_position ns') conns' = map Some ?es"
  proof (rule nth_equalityI)
    from ends have l: "length conns' = length ?es" by (rule map_eq_imp_length_eq [THEN trans]) simp
    then show "length (map (connection_position ns') conns') = length (map Some ?es)" by simp
    fix p assume "p < length (map (connection_position ns') conns')"
    then have p: "p < length ?es" by (simp add: l)
    obtain i a j b where e: "?es ! p = (i, a, j, b)" by (metis prod_cases4)
    with p have "(i, a, j, b) \<in> set ?es" by (metis nth_mem)
    from range [OF this] have r: "i < length ns" "j < length ns"
      "a < length (n_outputs (ns ! i))" "b < length (n_inputs (ns ! j))" by simp_all
    then have r': "i < length ns'" "j < length ns'"
      "a < length (n_outputs (ns' ! i))" "b < length (n_inputs (ns' ! j))"
      by (simp_all add: len nth import_node_fields shape)
    have "conn_ends (conns' ! p) =
            (uuid i, ''output-'' @ show_nat a, uuid j, ''input-'' @ show_nat b)"
      using arg_cong [OF ends, of "\<lambda>xs. xs ! p"] p l e by simp
    from import_position [OF inj ids' outs' ins' this r']
    show "map (connection_position ns') conns' ! p = map Some ?es ! p"
      using p l e by simp
  qed
  have all: "map Some ?es = map (connection_position ns) conns"
    if "\<forall>c \<in> set conns. connection_position ns c \<noteq> None"
    using that by (induction conns) (auto simp: List.map_filter_simps split: option.splits)
  show ?thesis
    unfolding result using types positions all by simp
qed

lemma inj_ex_uuid: "inj ex_uuid"
  by (rule injI) (simp add: ex_uuid_def show_nat_inj)

lemma ex_uuid_nonempty: "\<forall>k. ex_uuid k \<noteq> []"
  by (simp add: ex_uuid_def)

theorem import_export_roundtrip_witness:
  "map n_type (fst (importComfyUIWorkflow builtin_image_definitions ex_uuid
      (exportToComfyUIWorkflow [upload_node, output_node] image_conns))) =
     [''image-upload'', ''image-output''] \<and>
   map (connection_position (fst (importComfyUIWorkflow builtin_image_definitions ex_uuid
      (exportToComfyUIWorkflow [upload_node, output_node] image_conns))))
     (snd (importComfyUIWorkflow builtin_image_definitions ex_uuid
      (exportToComfyUIWorkflow [upload_node, output_node] image_conns))) =
     [Some (0, 0, 1, 0)] \<and>
   map (connection_position [upload_node, output_node]) image_conns = [Some (0, 0, 1, 0)]"
proof -
  have k: "\<forall>n \<in> set [upload_node, output_node]. n_type n \<in> snd ` set comfyNodeTypeMap"
    by (simp add: upload_node_def output_node_def comfyNodeTypeMap_def)
  have d: "distinct (map n_id [upload_node, output_node])"
    by (simp add: upload_node_def output_node_def)
  have p: "map (connection_position [upload_node, output_node]) image_conns = [Some (0, 0, 1, 0)]"
    by (simp add: connection_position_def image_conns_def ex_conn_def upload_node_def output_node_def)
  then have a: "\<forall>c \<in> set image_conns. connection_position [upload_node, output_node] c \<noteq> None"
    by (simp add: image_conns_def)
  have t: "n_type upload_node = ''image-upload''" "n_type output_node = ''image-output''"
    by (simp_all add: upload_node_def output_node_def)
  note r = import_export_roundtrip [OF k inj_ex_uuid ex_uuid_nonempty d,
      of builtin_image_definitions image_conns]
  from r a have "map (connection_position (fst (importComfyUIWorkflow builtin_image_definitions ex_uuid
      (exportToComfyUIWorkflow [upload_node, output_node] image_conns))))
     (snd (importComfyUIWorkflow builtin_image_definitions ex_uuid
      (exportToComfyUIWorkflow [upload_node, output_node] image_conns))) =
     map (connection_position [upload_node, output_node]) image_conns"
    by blast
  with r p t show ?thesis by simp
qed

text \<open>
  Claim C3 as stated fails for the literal data: a node of kind \<open>image-upload\<close>, which the
  dictionary maps to \<open>LoadImage\<close>, comes back with no literal data, since its definition
  has no input with a widget.
\<close>

theorem import_export_data_counterexample:
  "n_type upload_node = ''image-upload'' \<and>
   map_of comfyNodeTypeMap ''LoadImage'' = Some ''image-upload'' \<and>
   n_data upload_node = [(''imageUrl'', JStr ''a.png''), (''fileName'', JStr ''a.png'')] \<and>
   map n_data (fst (importComfyUIWorkflow builtin_image_definitions ex_uuid
      (exportToComfyUIWorkflow [upload_node] []))) = [[]]"
  by code_simp

text \<open>
  Claim C7 at a failing input. The definition has the inputs \<open>image\<close> (no widget),
  \<open>factor\<close> and \<open>mode\<close> (both with a widget); the external node carries the widget values
  \<open>[5, "add"]\<close>. The first widget value belongs to \<open>factor\<close> and the second to \<open>mode\<close>;
  the import gives \<open>factor\<close> the value at index 1, \<open>"add"\<close>, and \<open>mode\<close> nothing.
\<close>

theorem import_widget_values_by_port_index:
  "map n_type (fst (importComfyUIWorkflow blend_registry ex_uuid blend_workflow)) = [''comfy-blend''] \<and>
   map n_data (fst (importComfyUIWorkflow blend_registry ex_uuid blend_workflow)) =
     [[(''factor'', JStr ''add'')]]"
  by code_simp

end
